theory Spec2Isabelle
  imports Complex_Main "HOL-Library.Word"
begin

unbundle bit_operations_syntax

section \<open>Bytes, strings and exceptions\<close>

text \<open>
  A Python \<^verbatim>\<open>bytes\<close> value is a list of 8-bit words; a Python integer is an
  \<^typ>\<open>int\<close>. Every exception the modelled functions can raise is a constructor of
  \<open>error\<close>, and a function that can raise returns \<open>error + 'a\<close> with \<open>Inl\<close> for
  the exception.
\<close>

type_synonym byte = "8 word"

datatype error =
    AssertionError
  | StructError
  | BinasciiError
  | ValueError string
  | OverflowError
  | ZeroDivisionError
  | UnicodeDecodeError
  | EOFError

text \<open>\<^verbatim>\<open>b * n\<close> for a bytes value and an integer: the empty bytes when \<open>n \<le> 0\<close>.\<close>

definition bytes_repeat :: "byte list \<Rightarrow> int \<Rightarrow> byte list" where
  "bytes_repeat b n = concat (replicate (nat n) b)"

section \<open>PKCS\#1 padding\<close>

text \<open>
  \<^verbatim>\<open>
  def add_pkcs1_padding(message):
      padding = b''
      typeinfo = b'\x00\x01'
      separator = b'\x00'
      padding = b'\xFF' * (125 - len(message))
      padded_message = typeinfo + padding + separator + message
      assert len(padded_message) == 128
      return padded_message
  \<close>
\<close>

definition add_pkcs1_padding :: "byte list \<Rightarrow> error + byte list" where
  "add_pkcs1_padding message =
     (let typeinfo = [0x00, 0x01];
          separator = [0x00];
          padding = bytes_repeat [0xFF] (125 - int (length message));
          padded_message = typeinfo @ padding @ separator @ message
      in if length padded_message = 128 then Inr padded_message else Inl AssertionError)"

section \<open>SHA-1\<close>

text \<open>
  \<^verbatim>\<open>hashlib.sha1\<close> is the SHA-1 of FIPS 180-4: the message is padded with the
  byte \<open>80\<close>, zero bytes and its bit length as 8 big-endian bytes to a multiple of 64
  bytes, and every 64-byte block runs 80 rounds over five 32-bit words.
\<close>

text \<open>The \<open>n\<close> low bytes of an integer, most significant byte first.\<close>

definition be_bytes :: "nat \<Rightarrow> int \<Rightarrow> byte list" where
  "be_bytes n v = map (\<lambda>i. of_int (drop_bit (8 * (n - 1 - i)) v)) [0..<n]"

definition word32_of_bytes :: "byte list \<Rightarrow> 32 word" where
  "word32_of_bytes bs = foldl (\<lambda>acc b. push_bit 8 acc OR ucast b) 0 bs"

definition bytes_of_word32 :: "32 word \<Rightarrow> byte list" where
  "bytes_of_word32 w = [ucast (drop_bit 24 w), ucast (drop_bit 16 w), ucast (drop_bit 8 w), ucast w]"

text \<open>The slices \<^verbatim>\<open>xs[i : i + n]\<close> for \<^verbatim>\<open>i in range(0, len(xs), n)\<close>.\<close>

function chunks :: "nat \<Rightarrow> 'a list \<Rightarrow> 'a list list" where
  "chunks n xs = (if n = 0 \<or> xs = [] then [] else take n xs # chunks n (drop n xs))"
  by pat_completeness auto
termination
  by (relation "measure (\<lambda>(n, xs). length xs)") auto

declare chunks.simps [simp del]

definition sha1_pad :: "byte list \<Rightarrow> byte list" where
  "sha1_pad m =
     m @ [0x80] @ replicate ((64 - (length m + 9) mod 64) mod 64) 0 @ be_bytes 8 (8 * int (length m))"

fun sha1_schedule :: "nat \<Rightarrow> 32 word list \<Rightarrow> 32 word list" where
  "sha1_schedule 0 w = w"
| "sha1_schedule (Suc n) w =
     (let t = length w
      in sha1_schedule n
           (w @ [word_rotl 1 (w ! (t - 3) XOR w ! (t - 8) XOR w ! (t - 14) XOR w ! (t - 16))]))"

definition sha1_f :: "nat \<Rightarrow> 32 word \<Rightarrow> 32 word \<Rightarrow> 32 word \<Rightarrow> 32 word" where
  "sha1_f t b c d =
     (if t < 20 then (b AND c) OR (NOT b AND d)
      else if t < 40 then b XOR c XOR d
      else if t < 60 then (b AND c) OR (b AND d) OR (c AND d)
      else b XOR c XOR d)"

definition sha1_k :: "nat \<Rightarrow> 32 word" where
  "sha1_k t =
     (if t < 20 then 0x5A827999 else if t < 40 then 0x6ED9EBA1
      else if t < 60 then 0x8F1BBCDC else 0xCA62C1D6)"

type_synonym sha1_state = "32 word \<times> 32 word \<times> 32 word \<times> 32 word \<times> 32 word"

fun sha1_round :: "sha1_state \<Rightarrow> nat \<times> 32 word \<Rightarrow> sha1_state" where
  "sha1_round (a, b, c, d, e) (t, w) =
     (word_rotl 5 a + sha1_f t b c d + e + sha1_k t + w, a, word_rotl 30 b, c, d)"

fun sha1_block :: "sha1_state \<Rightarrow> byte list \<Rightarrow> sha1_state" where
  "sha1_block (h0, h1, h2, h3, h4) block =
     (let w = sha1_schedule 64 (map word32_of_bytes (chunks 4 block));
          (a, b, c, d, e) = foldl sha1_round (h0, h1, h2, h3, h4) (zip [0..<80] w)
      in (h0 + a, h1 + b, h2 + c, h3 + d, h4 + e))"

definition sha1_init :: sha1_state where
  "sha1_init = (0x67452301, 0xEFCDAB89, 0x98BADCFE, 0x10325476, 0xC3D2E1F0)"

definition sha1 :: "byte list \<Rightarrow> byte list" where
  "sha1 m =
     (case foldl sha1_block sha1_init (chunks 64 (sha1_pad m)) of
        (h0, h1, h2, h3, h4) \<Rightarrow> concat (map bytes_of_word32 [h0, h1, h2, h3, h4]))"

text \<open>
  A \<^verbatim>\<open>hashlib\<close> hash object is the bytes fed to it so far: \<^verbatim>\<open>update\<close> appends,
  \<^verbatim>\<open>digest\<close> hashes what was fed.
\<close>

type_synonym sha1_obj = "byte list"

definition hashlib_sha1 :: sha1_obj where
  "hashlib_sha1 = []"

definition sha1_update :: "sha1_obj \<Rightarrow> byte list \<Rightarrow> sha1_obj" where
  "sha1_update h d = h @ d"

definition sha1_digest :: "sha1_obj \<Rightarrow> byte list" where
  "sha1_digest h = sha1 h"

section \<open>struct, format and binascii\<close>

text \<open>
  \<^verbatim>\<open>struct.pack('>I', v)\<close> raises \<^verbatim>\<open>struct.error\<close> unless \<open>0 \<le> v < 2^32\<close>;
  \<^verbatim>\<open>struct.unpack('B', buf)\<close> raises it unless \<open>buf\<close> is exactly one byte.
\<close>

definition struct_pack_I :: "int \<Rightarrow> error + byte list" where
  "struct_pack_I v = (if 0 \<le> v \<and> v \<le> 4294967295 then Inr (be_bytes 4 v) else Inl StructError)"

definition struct_unpack_B :: "byte list \<Rightarrow> error + int" where
  "struct_unpack_B buf = (case buf of [b] \<Rightarrow> Inr (uint b) | _ \<Rightarrow> Inl StructError)"

text \<open>
  \<^verbatim>\<open>'{0:02X}'.format(n)\<close>: the upper-case hexadecimal digits of \<open>\<bar>n\<bar>\<close>, after the
  sign \<open>-\<close> of a negative \<open>n\<close>, filled with \<open>0\<close> between sign and digits to at least two
  characters.
\<close>

definition hex_digit :: "nat \<Rightarrow> char" where
  "hex_digit d = ''0123456789ABCDEF'' ! d"

function hex_upper :: "int \<Rightarrow> string" where
  "hex_upper n =
     (if n < 16 then [hex_digit (nat n)] else hex_upper (n div 16) @ [hex_digit (nat (n mod 16))])"
  by pat_completeness auto
termination
  by (relation "measure nat") auto

declare hex_upper.simps [simp del]

definition format_02X :: "int \<Rightarrow> string" where
  "format_02X n =
     (let sign = (if n < 0 then ''-'' else []); digits = hex_upper \<bar>n\<bar>
      in sign @ replicate (2 - length sign - length digits) CHR ''0'' @ digits)"

text \<open>
  \<^verbatim>\<open>binascii.unhexlify\<close>: two hexadecimal digits of either case per byte;
  \<^verbatim>\<open>binascii.Error\<close> on an odd length or on any other character.
\<close>

definition hex_value :: "char \<Rightarrow> nat option" where
  "hex_value c =
     (let n = (of_char c :: nat)
      in if 48 \<le> n \<and> n \<le> 57 then Some (n - 48)
         else if 65 \<le> n \<and> n \<le> 70 then Some (n - 55)
         else if 97 \<le> n \<and> n \<le> 102 then Some (n - 87)
         else None)"

fun hex_pairs :: "string \<Rightarrow> error + byte list" where
  "hex_pairs [] = Inr []"
| "hex_pairs [c] = Inl BinasciiError"
| "hex_pairs (h # l # rest) =
     (case (hex_value h, hex_value l) of
        (Some a, Some b) \<Rightarrow>
          (case hex_pairs rest of Inl e \<Rightarrow> Inl e | Inr bs \<Rightarrow> Inr (of_nat (16 * a + b) # bs))
      | _ \<Rightarrow> Inl BinasciiError)"

definition unhexlify :: "string \<Rightarrow> error + byte list" where
  "unhexlify s = (if odd (length s) then Inl BinasciiError else hex_pairs s)"

section \<open>The secret id part\<close>

text \<open>
  \<^verbatim>\<open>
  def calc_secret_id_part(time_period, descriptor_cookie, replica):
      secret_id_part = hashlib.sha1()
      secret_id_part.update(struct.pack('>I', time_period)[:4])
      if descriptor_cookie:
          secret_id_part.update(descriptor_cookie)
      secret_id_part.update(binascii.unhexlify('{0:02X}'.format(replica)))
      return secret_id_part.digest()
  \<close>
  The cookie is \<^verbatim>\<open>None\<close> or a bytes value; \<^verbatim>\<open>if descriptor_cookie\<close> is false for
  \<^verbatim>\<open>None\<close> and for the empty bytes.
\<close>

definition calc_secret_id_part :: "int \<Rightarrow> byte list option \<Rightarrow> int \<Rightarrow> error + byte list" where
  "calc_secret_id_part time_period descriptor_cookie replica =
     (let secret_id_part = hashlib_sha1
      in case struct_pack_I time_period of
           Inl e \<Rightarrow> Inl e
         | Inr packed \<Rightarrow>
             let secret_id_part = sha1_update secret_id_part (take 4 packed);
                 secret_id_part =
                   (case descriptor_cookie of
                      None \<Rightarrow> secret_id_part
                    | Some cookie \<Rightarrow>
                        if cookie \<noteq> [] then sha1_update secret_id_part cookie else secret_id_part)
             in case unhexlify (format_02X replica) of
                  Inl e \<Rightarrow> Inl e
                | Inr r \<Rightarrow> Inr (sha1_digest (sha1_update secret_id_part r)))"

section \<open>Base32\<close>

text \<open>
  \<^verbatim>\<open>base64.b32encode\<close> and \<^verbatim>\<open>base64.b32decode\<close> as the standard library
  implements them, over the alphabet of RFC 4648. The encoder pads the input with zero
  bytes to a multiple of 5, writes each 5-byte quantum as 8 characters through the
  table of all two-character strings, and overwrites the tail with \<open>=\<close>.
\<close>

definition b32alphabet :: string where
  "b32alphabet = ''ABCDEFGHIJKLMNOPQRSTUVWXYZ234567''"

definition b32tab2 :: "int \<Rightarrow> string" where
  "b32tab2 i = [b32alphabet ! nat (i div 32), b32alphabet ! nat (i mod 32)]"

text \<open>\<^verbatim>\<open>int.from_bytes(bs)\<close>, big endian.\<close>

definition from_bytes :: "byte list \<Rightarrow> int" where
  "from_bytes bs = foldl (\<lambda>acc b. 256 * acc + uint b) 0 bs"

definition b32encode_quantum :: "byte list \<Rightarrow> string" where
  "b32encode_quantum q =
     (let c = from_bytes q
      in b32tab2 (drop_bit 30 c) @ b32tab2 (drop_bit 20 c AND 0x3ff)
         @ b32tab2 (drop_bit 10 c AND 0x3ff) @ b32tab2 (c AND 0x3ff))"

definition b32encode :: "byte list \<Rightarrow> string" where
  "b32encode s =
     (let leftover = length s mod 5;
          s = (if leftover \<noteq> 0 then s @ replicate (5 - leftover) 0 else s);
          encoded = concat (map b32encode_quantum (chunks 5 s))
      in if leftover = 1 then take (length encoded - 6) encoded @ ''======''
         else if leftover = 2 then take (length encoded - 4) encoded @ ''====''
         else if leftover = 3 then take (length encoded - 3) encoded @ ''===''
         else if leftover = 4 then take (length encoded - 1) encoded @ ''=''
         else encoded)"

text \<open>\<^verbatim>\<open>lower()\<close> and \<^verbatim>\<open>upper()\<close> on ASCII text.\<close>

definition ascii_lower :: "char \<Rightarrow> char" where
  "ascii_lower c =
     (let n = (of_char c :: nat) in if 65 \<le> n \<and> n \<le> 90 then char_of (n + 32) else c)"

definition ascii_upper :: "char \<Rightarrow> char" where
  "ascii_upper c =
     (let n = (of_char c :: nat) in if 97 \<le> n \<and> n \<le> 122 then char_of (n - 32) else c)"

text \<open>
  The decoder: a string that is not ASCII is a \<^verbatim>\<open>ValueError\<close>; a length that is not
  a multiple of 8, a character outside the alphabet or a number of trailing \<open>=\<close> other
  than 0, 1, 3, 4 or 6 is a \<^verbatim>\<open>binascii.Error\<close>. With \<open>casefold\<close> the input is
  upper-cased first.
\<close>

definition b32rev :: "char \<Rightarrow> int option" where
  "b32rev = map_of (zip b32alphabet [0..31])"

fun b32_acc :: "int \<Rightarrow> string \<Rightarrow> int option" where
  "b32_acc acc [] = Some acc"
| "b32_acc acc (c # cs) =
     (case b32rev c of None \<Rightarrow> None | Some v \<Rightarrow> b32_acc (push_bit 5 acc + v) cs)"

fun b32decode_quanta :: "byte list \<times> int \<Rightarrow> string list \<Rightarrow> error + byte list \<times> int" where
  "b32decode_quanta (decoded, acc) [] = Inr (decoded, acc)"
| "b32decode_quanta (decoded, acc) (quanta # rest) =
     (case b32_acc 0 quanta of
        None \<Rightarrow> Inl BinasciiError
      | Some acc' \<Rightarrow> b32decode_quanta (decoded @ be_bytes 5 acc', acc') rest)"

definition rstrip_pad :: "string \<Rightarrow> string" where
  "rstrip_pad s = rev (dropWhile (\<lambda>c. c = CHR ''='') (rev s))"

definition b32decode :: "string \<Rightarrow> bool \<Rightarrow> error + byte list" where
  "b32decode s casefold =
     (if list_ex (\<lambda>c. 128 \<le> (of_char c :: nat)) s
      then Inl (ValueError ''string argument should contain only ASCII characters'')
      else if length s mod 8 \<noteq> 0 then Inl BinasciiError
      else
        let s = (if casefold then map ascii_upper s else s);
            l = length s;
            s = rstrip_pad s;
            padchars = l - length s
        in case b32decode_quanta ([], 0) (chunks 8 s) of
             Inl e \<Rightarrow> Inl e
           | Inr (decoded, acc) \<Rightarrow>
               if padchars \<notin> {0, 1, 3, 4, 6} then Inl BinasciiError
               else if padchars \<noteq> 0 \<and> decoded \<noteq> []
               then
                 let acc = push_bit (5 * padchars) acc;
                     last = be_bytes 5 acc;
                     leftover = (43 - 5 * padchars) div 8
                 in Inr (take (length decoded - 5) decoded @ take leftover last)
               else Inr decoded)"

text \<open>\<^verbatim>\<open>base32_encode_str\<close>: \<^verbatim>\<open>base64.b32encode(byte_str).lower().decode('utf-8')\<close>.\<close>

definition base32_encode_str :: "byte list \<Rightarrow> string" where
  "base32_encode_str byte_str = map ascii_lower (b32encode byte_str)"

section \<open>SHA3-256\<close>

text \<open>
  \<^verbatim>\<open>hashlib.sha3_256\<close> is the SHA3-256 of FIPS 202: the sponge over
  Keccak-f[1600] with a rate of 136 bytes, the domain suffix \<open>06\<close> and 32 bytes of
  output. The state is 25 lanes of 64 bits, lane \<open>(x, y)\<close> at index \<open>x + 5 * y\<close>.
\<close>

type_synonym keccak_state = "64 word list"

definition keccak_rc :: "64 word list" where
  "keccak_rc =
     [0x0000000000000001, 0x0000000000008082, 0x800000000000808A, 0x8000000080008000,
      0x000000000000808B, 0x0000000080000001, 0x8000000080008081, 0x8000000000008009,
      0x000000000000008A, 0x0000000000000088, 0x0000000080008009, 0x000000008000000A,
      0x000000008000808B, 0x800000000000008B, 0x8000000000008089, 0x8000000000008003,
      0x8000000000008002, 0x8000000000000080, 0x000000000000800A, 0x800000008000000A,
      0x8000000080008081, 0x8000000000008080, 0x0000000080000001, 0x8000000080008008]"

definition keccak_rot :: "nat list" where
  "keccak_rot =
     [0, 1, 62, 28, 27,
      36, 44, 6, 55, 20,
      3, 10, 43, 25, 39,
      41, 45, 15, 21, 8,
      18, 2, 61, 56, 14]"

definition keccak_theta :: "keccak_state \<Rightarrow> keccak_state" where
  "keccak_theta a =
     (let c = map (\<lambda>x. a ! x XOR a ! (x + 5) XOR a ! (x + 10) XOR a ! (x + 15) XOR a ! (x + 20)) [0..<5];
          d = map (\<lambda>x. c ! ((x + 4) mod 5) XOR word_rotl 1 (c ! ((x + 1) mod 5))) [0..<5]
      in map (\<lambda>i. a ! i XOR d ! (i mod 5)) [0..<25])"

definition keccak_rho_pi :: "keccak_state \<Rightarrow> keccak_state" where
  "keccak_rho_pi a =
     map (\<lambda>i. let x = i mod 5; y = i div 5; src = (x + 3 * y) mod 5 + 5 * x
              in word_rotl (keccak_rot ! src) (a ! src)) [0..<25]"

definition keccak_chi :: "keccak_state \<Rightarrow> keccak_state" where
  "keccak_chi b =
     map (\<lambda>i. let x = i mod 5; y = i div 5
              in b ! i XOR (NOT (b ! ((x + 1) mod 5 + 5 * y)) AND b ! ((x + 2) mod 5 + 5 * y)))
       [0..<25]"

definition keccak_iota :: "64 word \<Rightarrow> keccak_state \<Rightarrow> keccak_state" where
  "keccak_iota rc a = a[0 := a ! 0 XOR rc]"

definition keccak_round :: "keccak_state \<Rightarrow> 64 word \<Rightarrow> keccak_state" where
  "keccak_round a rc = keccak_iota rc (keccak_chi (keccak_rho_pi (keccak_theta a)))"

definition keccak_f :: "keccak_state \<Rightarrow> keccak_state" where
  "keccak_f a = foldl keccak_round a keccak_rc"

definition word64_of_le_bytes :: "byte list \<Rightarrow> 64 word" where
  "word64_of_le_bytes bs = foldr (\<lambda>b acc. push_bit 8 acc OR ucast b) bs 0"

definition le_bytes_of_word64 :: "64 word \<Rightarrow> byte list" where
  "le_bytes_of_word64 w = map (\<lambda>i. ucast (drop_bit (8 * i) w)) [0..<8]"

definition sha3_256_pad :: "byte list \<Rightarrow> byte list" where
  "sha3_256_pad m =
     (let q = 136 - length m mod 136
      in if q = 1 then m @ [0x86] else m @ [0x06] @ replicate (q - 2) 0 @ [0x80])"

definition keccak_absorb :: "keccak_state \<Rightarrow> byte list \<Rightarrow> keccak_state" where
  "keccak_absorb a block =
     (let lanes = map word64_of_le_bytes (chunks 8 block) @ replicate 8 0
      in keccak_f (map (\<lambda>i. a ! i XOR lanes ! i) [0..<25]))"

definition sha3_256 :: "byte list \<Rightarrow> byte list" where
  "sha3_256 m =
     take 32 (concat (map le_bytes_of_word64
       (foldl keccak_absorb (replicate 25 0) (chunks 136 (sha3_256_pad m)))))"

section \<open>Keys and onion addresses\<close>

text \<open>
  A key is an Ed25519 private key, given by its 32 secret bytes, or an RSA key object.
  Of an RSA key the functions use the modulus \<open>n\<close>, the public exponent \<open>e\<close>, and
  what its methods \<^verbatim>\<open>has_private()\<close> and \<^verbatim>\<open>size()\<close> return.
\<close>

record rsa_key =
  rsa_n :: int
  rsa_e :: int
  has_private :: bool
  size :: int

datatype key = Ed25519PrivateKey "byte list" | RSAKey rsa_key

text \<open>
  \<^verbatim>\<open>Crypto.Util.asn1\<close>: a DER object is its tag, the length octets of its payload
  and the payload; an integer is its shortest big-endian bytes, after a zero byte when
  the first bit is set; the sequence holds the encoded integers.
\<close>

function long_to_bytes :: "int \<Rightarrow> byte list" where
  "long_to_bytes n =
     (if n < 256 then [of_int n] else long_to_bytes (n div 256) @ [of_int (n mod 256)])"
  by pat_completeness auto
termination
  by (relation "measure nat") auto

declare long_to_bytes.simps [simp del]

definition der_length_octets :: "nat \<Rightarrow> byte list" where
  "der_length_octets payload_len =
     (if payload_len > 127
      then let encoding = long_to_bytes (int payload_len)
           in [of_nat (length encoding + 128)] @ encoding
      else [of_nat payload_len])"

definition der_object :: "byte \<Rightarrow> byte list \<Rightarrow> byte list" where
  "der_object type_tag payload = [type_tag] @ der_length_octets (length payload) @ payload"

definition der_integer :: "int \<Rightarrow> byte list" where
  "der_integer v =
     (let payload = long_to_bytes v;
          payload = (if hd payload > 127 then [0x00] @ payload else payload)
      in der_object 0x02 payload)"

text \<open>
  \<^verbatim>\<open>
  def get_asn1_sequence(rsa_key):
      seq = Crypto.Util.asn1.DerSequence()
      seq.append(rsa_key.n)
      seq.append(rsa_key.e)
      asn1_seq = seq.encode()
      return asn1_seq

  def calc_key_digest(rsa_key):
      return hashlib.sha1(get_asn1_sequence(rsa_key)).digest()

  def calc_permanent_id(rsa_key):
      return calc_key_digest(rsa_key)[:10]
  \<close>
\<close>

definition get_asn1_sequence :: "rsa_key \<Rightarrow> byte list" where
  "get_asn1_sequence rsa_key =
     der_object 0x30 (der_integer (rsa_n rsa_key) @ der_integer (rsa_e rsa_key))"

definition calc_key_digest :: "rsa_key \<Rightarrow> byte list" where
  "calc_key_digest rsa_key = sha1 (get_asn1_sequence rsa_key)"

definition calc_permanent_id :: "rsa_key \<Rightarrow> byte list" where
  "calc_permanent_id rsa_key = take 10 (calc_key_digest rsa_key)"

text \<open>The bytes of an ASCII literal \<^verbatim>\<open>b'...'\<close>.\<close>

definition ascii_bytes :: "string \<Rightarrow> byte list" where
  "ascii_bytes s = map (\<lambda>c. of_nat (of_char c)) s"

text \<open>
  \<^verbatim>\<open>
  def calc_onion_address(key):
      if isinstance(key, Ed25519PrivateKey):
          pub_key = key.public_key().public_bytes(Encoding.Raw, PublicFormat.Raw)
          checksum = hashlib.sha3_256(b".onion checksum" + pub_key + b'\x03').digest()[:2]
          address = base32_encode_str(pub_key + checksum + b'\x03')
          return address
      return base64.b32encode(calc_permanent_id(key)).decode().lower()
  \<close>
  The public key of an Ed25519 private key is computed by the \<^verbatim>\<open>cryptography\<close>
  library; the function \<open>public_bytes\<close> that maps the secret bytes to the raw public key
  is a parameter of the model.
\<close>

definition calc_onion_address :: "(byte list \<Rightarrow> byte list) \<Rightarrow> key \<Rightarrow> string" where
  "calc_onion_address public_bytes k =
     (case k of
        Ed25519PrivateKey secret \<Rightarrow>
          let pub_key = public_bytes secret;
              checksum = take 2 (sha3_256 (ascii_bytes ''.onion checksum'' @ pub_key @ [0x03]));
              address = base32_encode_str (pub_key @ checksum @ [0x03])
          in address
      | RSAKey rsa_key \<Rightarrow> map ascii_lower (b32encode (calc_permanent_id rsa_key)))"

text \<open>
  \<^verbatim>\<open>
  def calc_descriptor_id(permanent_id, secret_id_part):
      return hashlib.sha1(permanent_id + secret_id_part).digest()
  \<close>
\<close>

definition calc_descriptor_id :: "byte list \<Rightarrow> byte list \<Rightarrow> byte list" where
  "calc_descriptor_id permanent_id secret_id_part = sha1 (permanent_id @ secret_id_part)"

section \<open>Python floats\<close>

text \<open>
  A Python \<^verbatim>\<open>float\<close> is an IEEE 754 binary64 value: a finite value is a rational
  with a 53-bit significand and an exponent of at least \<open>-1074\<close>, and every arithmetic
  result is the exact result rounded to the nearest such value, ties to the even
  significand. \<open>round_double\<close> is that rounding, without the upper bound on the
  exponent; a result of magnitude \<open>2^1024\<close> or more is an overflow. The sign of a zero
  is not modelled: it cannot be observed through \<^verbatim>\<open>int()\<close>.
\<close>

text \<open>\<^verbatim>\<open>n.bit_length()\<close> for \<open>n \<ge> 0\<close>.\<close>

function bit_length :: "int \<Rightarrow> int" where
  "bit_length n = (if n \<le> 0 then 0 else 1 + bit_length (n div 2))"
  by pat_completeness auto
termination
  by (relation "measure nat") auto

declare bit_length.simps [simp del]

text \<open>\<open>\<lfloor>log\<^sub>2 x\<rfloor>\<close> for a rational \<open>x > 0\<close>.\<close>

definition flog2 :: "rat \<Rightarrow> int" where
  "flog2 x = (if 1 \<le> x then bit_length \<lfloor>x\<rfloor> - 1 else - bit_length (\<lceil>1 / x\<rceil> - 1))"

text \<open>Rounding to the nearest integer, ties to even.\<close>

definition rne :: "rat \<Rightarrow> int" where
  "rne x =
     (let f = \<lfloor>x\<rfloor>; r = x - of_int f
      in if r < 1 / 2 then f else if 1 / 2 < r then f + 1 else if even f then f else f + 1)"

definition round_double :: "rat \<Rightarrow> rat" where
  "round_double x =
     (if x = 0 then 0
      else let e = max (flog2 \<bar>x\<bar>) (- 1022); u = 2 powi (e - 52)
           in of_int (rne (x / u)) * u)"

datatype pyfloat = Finite rat | PosInf | NegInf | NaN

text \<open>The float of an exact result: infinite when the rounded value leaves the range.\<close>

definition to_float :: "rat \<Rightarrow> pyfloat" where
  "to_float x =
     (let y = round_double x
      in if 2 ^ 1024 \<le> y then PosInf else if y \<le> - (2 ^ 1024) then NegInf else Finite y)"

text \<open>
  \<^verbatim>\<open>float(n)\<close> for an integer, as the mixed operators below apply it to their integer
  operand: \<^verbatim>\<open>OverflowError\<close> when the rounded value leaves the range.
\<close>

definition int_to_float :: "int \<Rightarrow> error + rat" where
  "int_to_float n =
     (case to_float (of_int n) of Finite y \<Rightarrow> Inr y | _ \<Rightarrow> Inl OverflowError)"

text \<open>
  \<^verbatim>\<open>a / b\<close> for two integers: the exact quotient, rounded once;
  \<^verbatim>\<open>ZeroDivisionError\<close> for \<open>b = 0\<close>, \<^verbatim>\<open>OverflowError\<close> when the result leaves the
  range.
\<close>

definition int_truediv :: "int \<Rightarrow> int \<Rightarrow> error + pyfloat" where
  "int_truediv a b =
     (if b = 0 then Inl ZeroDivisionError
      else case to_float (of_int a / of_int b) of
             Finite y \<Rightarrow> Inr (Finite y)
           | _ \<Rightarrow> Inl OverflowError)"

text \<open>\<^verbatim>\<open>n + x\<close> for an integer \<open>n\<close> and a float \<open>x\<close>.\<close>

definition int_add_float :: "int \<Rightarrow> pyfloat \<Rightarrow> error + pyfloat" where
  "int_add_float n x =
     (case int_to_float n of
        Inl e \<Rightarrow> Inl e
      | Inr f \<Rightarrow> Inr (case x of Finite a \<Rightarrow> to_float (f + a) | _ \<Rightarrow> x))"

text \<open>\<^verbatim>\<open>x / n\<close> for a float \<open>x\<close> and an integer \<open>n\<close>.\<close>

definition float_div_int :: "pyfloat \<Rightarrow> int \<Rightarrow> error + pyfloat" where
  "float_div_int x n =
     (case int_to_float n of
        Inl e \<Rightarrow> Inl e
      | Inr f \<Rightarrow>
          if f = 0 then Inl ZeroDivisionError
          else Inr (case x of
                      Finite a \<Rightarrow> to_float (a / f)
                    | PosInf \<Rightarrow> if 0 < f then PosInf else NegInf
                    | NegInf \<Rightarrow> if 0 < f then NegInf else PosInf
                    | NaN \<Rightarrow> NaN))"

text \<open>
  \<^verbatim>\<open>x % n\<close> for a float \<open>x\<close> and an integer \<open>n\<close>: the exact remainder \<^verbatim>\<open>fmod\<close> of
  the truncated division, to which the divisor is added when their signs differ.
\<close>

definition truncate :: "rat \<Rightarrow> int" where
  "truncate x = (if 0 \<le> x then \<lfloor>x\<rfloor> else \<lceil>x\<rceil>)"

definition fmod :: "rat \<Rightarrow> rat \<Rightarrow> rat" where
  "fmod x y = x - y * of_int (truncate (x / y))"

definition float_mod_int :: "pyfloat \<Rightarrow> int \<Rightarrow> error + pyfloat" where
  "float_mod_int x n =
     (case int_to_float n of
        Inl e \<Rightarrow> Inl e
      | Inr f \<Rightarrow>
          if f = 0 then Inl ZeroDivisionError
          else Inr (case x of
                      Finite a \<Rightarrow>
                        let m = fmod a f
                        in if m \<noteq> 0 \<and> (f < 0) \<noteq> (m < 0) then to_float (m + f) else Finite m
                    | _ \<Rightarrow> NaN))"

text \<open>
  \<^verbatim>\<open>int(x)\<close> for a float: truncation towards zero; \<^verbatim>\<open>OverflowError\<close> for an
  infinity, \<^verbatim>\<open>ValueError\<close> for a NaN.
\<close>

definition int_of_float :: "pyfloat \<Rightarrow> error + int" where
  "int_of_float x =
     (case x of
        Finite a \<Rightarrow> Inr (truncate a)
      | NaN \<Rightarrow> Inl (ValueError ''cannot convert float NaN to integer'')
      | _ \<Rightarrow> Inl OverflowError)"

section \<open>The time period\<close>

text \<open>
  \<^verbatim>\<open>
  def get_time_period(time, permanent_id):
      permanent_id_byte = int(struct.unpack('B', permanent_id[0:1])[0])
      return int((int(time) + permanent_id_byte * 86400 / 256) / 86400)

  def get_seconds_valid(time, permanent_id):
      permanent_id_byte = int(struct.unpack('B', permanent_id[0:1])[0])
      return 86400 - int((int(time) + permanent_id_byte * 86400 / 256) % 86400)
  \<close>
  The time is an integer. In Python 3 the operator \<^verbatim>\<open>/\<close> is the true division, so the
  offset, the sum and the quotient are floats.
\<close>

definition get_time_period :: "int \<Rightarrow> byte list \<Rightarrow> error + int" where
  "get_time_period time permanent_id =
     (case struct_unpack_B (take 1 permanent_id) of
        Inl e \<Rightarrow> Inl e
      | Inr permanent_id_byte \<Rightarrow>
          (case int_truediv (permanent_id_byte * 86400) 256 of
             Inl e \<Rightarrow> Inl e
           | Inr offset \<Rightarrow>
               (case int_add_float time offset of
                  Inl e \<Rightarrow> Inl e
                | Inr shifted \<Rightarrow>
                    (case float_div_int shifted 86400 of
                       Inl e \<Rightarrow> Inl e
                     | Inr periods \<Rightarrow> int_of_float periods))))"

definition get_seconds_valid :: "int \<Rightarrow> byte list \<Rightarrow> error + int" where
  "get_seconds_valid time permanent_id =
     (case struct_unpack_B (take 1 permanent_id) of
        Inl e \<Rightarrow> Inl e
      | Inr permanent_id_byte \<Rightarrow>
          (case int_truediv (permanent_id_byte * 86400) 256 of
             Inl e \<Rightarrow> Inl e
           | Inr offset \<Rightarrow>
               (case int_add_float time offset of
                  Inl e \<Rightarrow> Inl e
                | Inr shifted \<Rightarrow>
                    (case float_mod_int shifted 86400 of
                       Inl e \<Rightarrow> Inl e
                     | Inr elapsed \<Rightarrow>
                         (case int_of_float elapsed of
                            Inl e \<Rightarrow> Inl e
                          | Inr r \<Rightarrow> Inr (86400 - r))))))"

text \<open>
  The sum \<^verbatim>\<open>int(time) + permanent_id_byte * 86400 / 256\<close> as a float, for a time in
  the range of the doubles and a byte \<open>ph\<close>.
\<close>

definition shifted_time :: "int \<Rightarrow> int \<Rightarrow> rat" where
  "shifted_time t ph = round_double (round_double (of_int t) + of_int (ph * 675) / 2)"

section \<open>Properties of the PKCS\#1 padding\<close>

lemma bytes_repeat_single: "bytes_repeat [b] n = replicate (nat n) b"
  by (induction "nat n" arbitrary: n) (simp_all add: bytes_repeat_def replicate_app_Cons_same)

text \<open>
  C5. A message of at most 125 bytes is padded to exactly the 128-byte block
  \<open>00 01 FF..FF 00 message\<close> with \<open>125 - len(message)\<close> bytes \<open>FF\<close>; on a longer
  message the assertion on the length fails, so no block of another length is ever
  returned.
\<close>

theorem add_pkcs1_padding_block:
  "(length message \<le> 125 \<longrightarrow>
      add_pkcs1_padding message =
        Inr ([0x00, 0x01] @ replicate (125 - length message) 0xFF @ [0x00] @ message)
      \<and> length ([0x00, 0x01 :: byte] @ replicate (125 - length message) 0xFF @ [0x00] @ message) = 128)
   \<and> (125 < length message \<longrightarrow> add_pkcs1_padding message = Inl AssertionError)
   \<and> (\<forall>block. add_pkcs1_padding message = Inr block \<longrightarrow> length block = 128)"
  by (auto simp: add_pkcs1_padding_def bytes_repeat_single Let_def nat_diff_distrib' split: if_splits)

theorem add_pkcs1_padding_block_witness:
  "add_pkcs1_padding [0x61, 0x62, 0x63] = Inr ([0x00, 0x01] @ replicate 122 0xFF @ [0x00, 0x61, 0x62, 0x63])
   \<and> add_pkcs1_padding (replicate 126 0x61) = Inl AssertionError"
  using add_pkcs1_padding_block [of "[0x61, 0x62, 0x63]"] add_pkcs1_padding_block [of "replicate 126 0x61"]
  by simp

section \<open>Properties of the secret id part\<close>

lemma length_sha1: "length (sha1 m) = 20"
  by (simp add: sha1_def bytes_of_word32_def split: prod.splits)

lemma hex_value_hex_digit: "d < 16 \<Longrightarrow> hex_value (hex_digit d) = Some d"
proof -
  assume "d < 16"
  then have "d = 0 \<or> d = 1 \<or> d = 2 \<or> d = 3 \<or> d = 4 \<or> d = 5 \<or> d = 6 \<or> d = 7 \<or> d = 8
    \<or> d = 9 \<or> d = 10 \<or> d = 11 \<or> d = 12 \<or> d = 13 \<or> d = 14 \<or> d = 15"
    by arith
  then show ?thesis
    by (elim disjE) (simp_all add: hex_digit_def hex_value_def)
qed

lemma format_02X_byte:
  assumes "0 \<le> r" "r \<le> 255"
  shows "format_02X r = [hex_digit (nat (r div 16)), hex_digit (nat (r mod 16))]"
proof (cases "r < 16")
  case True
  with assms show ?thesis
    by (simp add: format_02X_def hex_upper.simps [of r] hex_digit_def)
next
  case False
  with assms have "r div 16 < 16" "0 \<le> r div 16" by simp_all
  with False assms show ?thesis
    by (simp add: format_02X_def hex_upper.simps [of r] hex_upper.simps [of "r div 16"])
qed

lemma unhexlify_format_02X:
  assumes "0 \<le> r" "r \<le> 255"
  shows "unhexlify (format_02X r) = Inr [of_int r]"
proof -
  have a: "nat (r div 16) < 16" using assms by simp
  have b: "nat (r mod 16) < 16" using assms by simp
  have "(of_nat (16 * nat (r div 16) + nat (r mod 16)) :: byte) = of_int r"
  proof -
    have "0 \<le> r div 16" using assms by (simp add: pos_imp_zdiv_nonneg_iff)
    then have "int (16 * nat (r div 16) + nat (r mod 16)) = r" using assms by simp
    then show ?thesis by (metis of_int_of_nat_eq)
  qed
  then show ?thesis
    by (simp add: format_02X_byte [OF assms] unhexlify_def hex_value_hex_digit [OF a]
        hex_value_hex_digit [OF b])
qed

lemma be_bytes_4:
  "be_bytes 4 v = [of_int (v div 2 ^ 24), of_int (v div 2 ^ 16), of_int (v div 2 ^ 8), of_int v]"
proof -
  have "[0..<4] = [0, 1, 2, 3 :: nat]"
    by (simp add: upt_rec)
  then show ?thesis
    by (simp add: be_bytes_def drop_bit_eq_div)
qed

text \<open>
  C4. For a time period in \<open>[0, 2^32)\<close> and a replica in \<open>[0, 255]\<close>,
  \<open>calc_secret_id_part\<close> returns the 20-byte SHA-1 digest of the time period as 4
  big-endian bytes, then the cookie bytes as they are when a cookie is given (nothing
  when it is absent), then the replica as one byte.
\<close>

theorem calc_secret_id_part_digest:
  assumes "0 \<le> time_period" and "time_period < 2 ^ 32" and "0 \<le> replica" and "replica \<le> 255"
  shows "calc_secret_id_part time_period cookie replica =
           Inr (sha1 ([of_int (time_period div 2 ^ 24), of_int (time_period div 2 ^ 16),
                        of_int (time_period div 2 ^ 8), of_int time_period]
                      @ (case cookie of None \<Rightarrow> [] | Some c \<Rightarrow> c)
                      @ [of_int replica]))
         \<and> length (sha1 ([of_int (time_period div 2 ^ 24), of_int (time_period div 2 ^ 16),
                        of_int (time_period div 2 ^ 8), of_int time_period]
                      @ (case cookie of None \<Rightarrow> [] | Some c \<Rightarrow> c)
                      @ [of_int replica])) = 20"
proof -
  have packed: "struct_pack_I time_period = Inr (be_bytes 4 time_period)"
    using assms(1,2) by (simp add: struct_pack_I_def)
  show ?thesis
    unfolding calc_secret_id_part_def packed unhexlify_format_02X [OF assms(3,4)]
    by (simp add: be_bytes_4 Let_def length_sha1 sha1_update_def sha1_digest_def
        hashlib_sha1_def split: option.split)
qed

text \<open>
  The scenario of the specification: time period 1, no cookie, replica 0 hashes exactly
  the five bytes \<open>00 00 00 01 00\<close>.
\<close>

theorem calc_secret_id_part_digest_witness:
  "calc_secret_id_part 1 None 0 = Inr (sha1 [0x00, 0x00, 0x00, 0x01, 0x00])
   \<and> length (sha1 [0x00, 0x00, 0x00, 0x01, 0x00]) = 20"
  using calc_secret_id_part_digest [of 1 0 None] by simp

text \<open>
  C10. A cookie that is present but empty is treated as no cookie: the test
  \<^verbatim>\<open>if descriptor_cookie\<close> is false for both, so the two digests are the same for
  every time period and replica (and so are the two failures, when the time period or
  the replica is out of range).
\<close>

theorem calc_secret_id_part_empty_cookie:
  "calc_secret_id_part time_period (Some []) replica = calc_secret_id_part time_period None replica"
  by (simp add: calc_secret_id_part_def Let_def split: sum.split)

section \<open>Properties of base32\<close>

lemma b32alphabet_table:
  "list_all (\<lambda>k. b32rev (b32alphabet ! nat k) = Some k
      \<and> ascii_upper (ascii_lower (b32alphabet ! nat k)) = b32alphabet ! nat k
      \<and> ascii_lower (b32alphabet ! nat k) \<noteq> CHR ''=''
      \<and> b32alphabet ! nat k \<noteq> CHR ''=''
      \<and> (of_char (ascii_lower (b32alphabet ! nat k)) :: nat) < 128) [0..31]"
  by code_simp

lemma b32alphabet_nth:
  assumes "0 \<le> k" and "k < 32"
  shows "b32rev (b32alphabet ! nat k) = Some k"
    and "ascii_upper (ascii_lower (b32alphabet ! nat k)) = b32alphabet ! nat k"
    and "ascii_lower (b32alphabet ! nat k) \<noteq> CHR ''=''"
    and "b32alphabet ! nat k \<noteq> CHR ''=''"
    and "(of_char (ascii_lower (b32alphabet ! nat k)) :: nat) < 128"
proof -
  from assms have "k \<in> set [0..31]" by simp
  with b32alphabet_table show
    "b32rev (b32alphabet ! nat k) = Some k"
    "ascii_upper (ascii_lower (b32alphabet ! nat k)) = b32alphabet ! nat k"
    "ascii_lower (b32alphabet ! nat k) \<noteq> CHR ''=''"
    "b32alphabet ! nat k \<noteq> CHR ''=''"
    "(of_char (ascii_lower (b32alphabet ! nat k)) :: nat) < 128"
    unfolding list_all_iff by blast+
qed

lemma b32_acc_tab2:
  assumes "0 \<le> x" and "x < 1024"
  shows "b32_acc acc (b32tab2 x @ rest) = b32_acc (1024 * acc + x) rest"
proof -
  have d: "0 \<le> x div 32" "x div 32 < 32" "0 \<le> x mod 32" "x mod 32 < 32"
    using assms by (simp_all add: pos_imp_zdiv_nonneg_iff)
  have "push_bit 5 (push_bit 5 acc + x div 32) + x mod 32 = 1024 * acc + x"
    by (simp add: push_bit_eq_mult algebra_simps)
  then show ?thesis
    by (simp add: b32tab2_def b32alphabet_nth(1) [OF d(1,2)] b32alphabet_nth(1) [OF d(3,4)])
qed

lemma from_bytes_5:
  "from_bytes [b0, b1, b2, b3, b4] =
     256 * (256 * (256 * (256 * uint b0 + uint b1) + uint b2) + uint b3) + uint b4"
  by (simp add: from_bytes_def)

lemma from_bytes_5_bounds:
  assumes "length q = 5"
  shows "0 \<le> from_bytes q" and "from_bytes q < 2 ^ 40"
proof -
  from assms obtain b0 b1 b2 b3 b4 where q: "q = [b0, b1, b2, b3, b4]"
    by (auto simp: length_Suc_conv eval_nat_numeral)
  have u: "0 \<le> uint b0" "0 \<le> uint b1" "0 \<le> uint b2" "0 \<le> uint b3" "0 \<le> uint b4"
    by simp_all
  have v: "uint b0 < 256" "uint b1 < 256" "uint b2 < 256" "uint b3 < 256" "uint b4 < 256"
    using uint_bounded [of b0] uint_bounded [of b1] uint_bounded [of b2] uint_bounded [of b3]
      uint_bounded [of b4] by simp_all
  show "0 \<le> from_bytes q" unfolding q from_bytes_5 using u by simp
  show "from_bytes q < 2 ^ 40" unfolding q from_bytes_5 using u v by simp
qed

lemma and_1023: "(k :: int) AND 0x3ff = k mod 1024"
proof -
  have "k AND mask 10 = k mod 2 ^ 10"
    by (simp add: take_bit_eq_mask [symmetric] take_bit_eq_mod)
  moreover have "(mask 10 :: int) = 1023"
    by (simp add: mask_eq_exp_minus_1)
  ultimately show ?thesis by simp
qed

lemma split_1024:
  fixes c :: int
  shows "1024 * (1024 * (1024 * (c div 2 ^ 30) + c div 2 ^ 20 mod 1024) + c div 2 ^ 10 mod 1024)
           + c mod 1024 = c"
proof -
  have a1: "1024 * (c div 1024) + c mod 1024 = c"
    by simp
  have "c div 1024 div 1024 = c div 1048576" and "c div 1048576 div 1024 = c div 1073741824"
    by (simp_all add: zdiv_zmult2_eq [symmetric])
  then have a2: "1024 * (c div 1048576) + c div 1024 mod 1024 = c div 1024"
    and a3: "1024 * (c div 1073741824) + c div 1048576 mod 1024 = c div 1048576"
    by (metis mult_div_mod_eq)+
  from a1 a2 a3 show ?thesis
    by simp
qed

lemma b32_acc_quantum:
  assumes "length q = 5"
  shows "b32_acc 0 (b32encode_quantum q) = Some (from_bytes q)"
proof -
  define c where "c = from_bytes q"
  have c: "0 \<le> c" "c < 2 ^ 40"
    unfolding c_def by (rule from_bytes_5_bounds [OF assms])+
  have x1: "0 \<le> c div 2 ^ 30" "c div 2 ^ 30 < 1024"
    using c by (simp_all add: pos_imp_zdiv_nonneg_iff)
  have x2: "0 \<le> c div 2 ^ 20 mod 1024" "c div 2 ^ 20 mod 1024 < 1024"
    and x3: "0 \<le> c div 2 ^ 10 mod 1024" "c div 2 ^ 10 mod 1024 < 1024"
    and x4: "0 \<le> c mod 1024" "c mod 1024 < 1024"
    by simp_all
  have "b32_acc 0 (b32encode_quantum q) =
      b32_acc 0 (b32tab2 (c div 2 ^ 30) @ b32tab2 (c div 2 ^ 20 mod 1024)
        @ b32tab2 (c div 2 ^ 10 mod 1024) @ b32tab2 (c mod 1024) @ [])"
    by (simp add: b32encode_quantum_def c_def [symmetric] and_1023 drop_bit_eq_div)
  also have "\<dots> = Some (1024 * (1024 * (1024 * (c div 2 ^ 30) + c div 2 ^ 20 mod 1024)
      + c div 2 ^ 10 mod 1024) + c mod 1024)"
    unfolding b32_acc_tab2 [OF x1] b32_acc_tab2 [OF x2] b32_acc_tab2 [OF x3] b32_acc_tab2 [OF x4]
    by simp
  also have "\<dots> = Some c"
    by (simp only: split_1024)
  finally show ?thesis
    by (simp add: c_def)
qed

lemma word8_drop_256: "(of_int (256 * a + uint b) :: byte) = b"
proof -
  have "(of_int (256 * a + uint b) :: byte) = of_int (uint b)"
    by (subst word_of_int_eq_iff) (simp add: take_bit_eq_mod)
  then show ?thesis
    by simp
qed

lemma be_bytes_from_bytes:
  assumes "length q = 5"
  shows "be_bytes 5 (from_bytes q) = q"
proof -
  from assms obtain b0 b1 b2 b3 b4 where q: "q = [b0, b1, b2, b3, b4]"
    by (auto simp: length_Suc_conv eval_nat_numeral)
  define u0 u1 u2 u3 u4 where "u0 = uint b0" and "u1 = uint b1" and "u2 = uint b2"
    and "u3 = uint b3" and "u4 = uint b4"
  define c where "c = 256 * (256 * (256 * (256 * u0 + u1) + u2) + u3) + u4"
  have u: "0 \<le> u0" "0 \<le> u1" "0 \<le> u2" "0 \<le> u3" "0 \<le> u4"
    "u0 < 256" "u1 < 256" "u2 < 256" "u3 < 256" "u4 < 256"
    unfolding u0_def u1_def u2_def u3_def u4_def
    using uint_bounded [of b0] uint_bounded [of b1] uint_bounded [of b2] uint_bounded [of b3]
      uint_bounded [of b4] by simp_all
  have d1: "c div 256 = 256 * (256 * (256 * u0 + u1) + u2) + u3"
    unfolding c_def using u by simp
  have d2: "c div 65536 = 256 * (256 * u0 + u1) + u2"
  proof -
    have "c div 65536 = c div 256 div 256"
      by (simp add: zdiv_zmult2_eq [symmetric])
    then show ?thesis unfolding d1 using u by simp
  qed
  have d3: "c div 16777216 = 256 * u0 + u1"
  proof -
    have "c div 16777216 = c div 65536 div 256"
      by (simp add: zdiv_zmult2_eq [symmetric])
    then show ?thesis unfolding d2 using u by simp
  qed
  have d4: "c div 4294967296 = u0"
  proof -
    have "c div 4294967296 = c div 16777216 div 256"
      by (simp add: zdiv_zmult2_eq [symmetric])
    then show ?thesis unfolding d3 using u by simp
  qed
  have idx: "[0..<5] = [0, 1, 2, 3, 4 :: nat]"
    by (simp add: upt_rec)
  have "be_bytes 5 c = [of_int (c div 4294967296), of_int (c div 16777216), of_int (c div 65536),
      of_int (c div 256), of_int c]"
    by (simp add: be_bytes_def idx drop_bit_eq_div)
  also have "\<dots> = [b0, b1, b2, b3, b4]"
  proof -
    have e0: "(of_int u0 :: byte) = b0"
      by (simp add: u0_def)
    have e1: "(of_int (256 * u0 + u1) :: byte) = b1"
      unfolding u1_def by (rule word8_drop_256)
    have e2: "(of_int (256 * (256 * u0 + u1) + u2) :: byte) = b2"
      unfolding u2_def by (rule word8_drop_256)
    have e3: "(of_int (256 * (256 * (256 * u0 + u1) + u2) + u3) :: byte) = b3"
      unfolding u3_def by (rule word8_drop_256)
    have e4: "(of_int c :: byte) = b4"
      unfolding c_def u4_def by (rule word8_drop_256)
    show ?thesis
      by (simp only: d1 d2 d3 d4 e0 e1 e2 e3 e4)
  qed
  finally show ?thesis
    by (simp add: q from_bytes_5 c_def u0_def u1_def u2_def u3_def u4_def)
qed

lemma chunks_Nil: "chunks n [] = []"
  by (subst chunks.simps) simp

lemma chunks_step: "0 < n \<Longrightarrow> xs \<noteq> [] \<Longrightarrow> chunks n xs = take n xs # chunks n (drop n xs)"
  by (subst chunks.simps) simp

lemma chunks_concat:
  assumes "0 < n" and "\<forall>x \<in> set xs. length x = n"
  shows "chunks n (concat xs) = xs"
  using assms(2)
proof (induction xs)
  case Nil
  show ?case by (simp add: chunks_Nil)
next
  case (Cons x xs)
  then have len: "length x = n" and rest: "\<forall>x \<in> set xs. length x = n"
    by simp_all
  from len assms(1) have ne: "x @ concat xs \<noteq> []"
    by auto
  have "chunks n (concat (x # xs)) = take n (x @ concat xs) # chunks n (drop n (x @ concat xs))"
    using chunks_step [OF assms(1) ne] by simp
  also have "take n (x @ concat xs) = x"
    using len by simp
  also have "drop n (x @ concat xs) = concat xs"
    using len by simp
  finally show ?case
    using Cons.IH [OF rest] by simp
qed

lemma chunks_multiple:
  "0 < n \<Longrightarrow> length bs mod n = 0 \<Longrightarrow>
     (\<forall>q \<in> set (chunks n bs). length q = n) \<and> concat (chunks n bs) = bs"
proof (induction n bs rule: chunks.induct)
  case (1 n xs)
  show ?case
  proof (cases "xs = []")
    case True
    then show ?thesis by (simp add: chunks_Nil)
  next
    case False
    from 1(3) have dvd: "n dvd length xs"
      by (simp only: mod_eq_0_iff_dvd)
    with False have le: "n \<le> length xs"
      by (auto dest: dvd_imp_le)
    have "n dvd length xs - n"
      by (rule dvd_diff_nat [OF dvd dvd_refl])
    then have d: "length (drop n xs) mod n = 0"
      by (simp only: length_drop mod_eq_0_iff_dvd)
    have nz: "\<not> (n = 0 \<or> xs = [])"
      using 1(2) False by simp
    have ih: "(\<forall>q \<in> set (chunks n (drop n xs)). length q = n)
        \<and> concat (chunks n (drop n xs)) = drop n xs"
      by (rule 1(1) [OF nz 1(2) d])
    have step: "chunks n xs = take n xs # chunks n (drop n xs)"
      by (rule chunks_step [OF 1(2) False])
    have "length (take n xs) = n"
      using le by simp
    with ih show ?thesis
      unfolding step by simp
  qed
qed

lemma length_b32encode_quantum: "length (b32encode_quantum q) = 8"
  by (simp add: b32encode_quantum_def b32tab2_def Let_def)

lemma b32tab2_text:
  assumes "0 \<le> x" and "x < 1024"
  shows "map ascii_upper (map ascii_lower (b32tab2 x)) = b32tab2 x"
    and "CHR ''='' \<notin> set (b32tab2 x)"
    and "\<not> list_ex (\<lambda>c. 128 \<le> (of_char c :: nat)) (map ascii_lower (b32tab2 x))"
proof -
  have d: "0 \<le> x div 32" "x div 32 < 32" "0 \<le> x mod 32" "x mod 32 < 32"
    using assms by (simp_all add: pos_imp_zdiv_nonneg_iff)
  show "map ascii_upper (map ascii_lower (b32tab2 x)) = b32tab2 x"
    by (simp add: b32tab2_def b32alphabet_nth(2) [OF d(1,2)] b32alphabet_nth(2) [OF d(3,4)])
  show "CHR ''='' \<notin> set (b32tab2 x)"
    using b32alphabet_nth(4) [OF d(1,2)] b32alphabet_nth(4) [OF d(3,4)]
    by (auto simp: b32tab2_def)
  show "\<not> list_ex (\<lambda>c. 128 \<le> (of_char c :: nat)) (map ascii_lower (b32tab2 x))"
    using b32alphabet_nth(5) [OF d(1,2)] b32alphabet_nth(5) [OF d(3,4)]
    by (simp add: b32tab2_def)
qed

lemma b32encode_quantum_text:
  assumes "length q = 5"
  shows "map ascii_upper (map ascii_lower (b32encode_quantum q)) = b32encode_quantum q"
    and "CHR ''='' \<notin> set (b32encode_quantum q)"
    and "\<not> list_ex (\<lambda>c. 128 \<le> (of_char c :: nat)) (map ascii_lower (b32encode_quantum q))"
proof -
  define c where "c = from_bytes q"
  have c: "0 \<le> c" "c < 2 ^ 40"
    unfolding c_def by (rule from_bytes_5_bounds [OF assms])+
  have x1: "0 \<le> c div 2 ^ 30" "c div 2 ^ 30 < 1024"
    using c by (simp_all add: pos_imp_zdiv_nonneg_iff)
  have x2: "0 \<le> c div 2 ^ 20 mod 1024" "c div 2 ^ 20 mod 1024 < 1024"
    and x3: "0 \<le> c div 2 ^ 10 mod 1024" "c div 2 ^ 10 mod 1024 < 1024"
    and x4: "0 \<le> c mod 1024" "c mod 1024 < 1024"
    by simp_all
  have enc: "b32encode_quantum q = b32tab2 (c div 2 ^ 30) @ b32tab2 (c div 2 ^ 20 mod 1024)
        @ b32tab2 (c div 2 ^ 10 mod 1024) @ b32tab2 (c mod 1024)"
    by (simp add: b32encode_quantum_def c_def [symmetric] and_1023 drop_bit_eq_div)
  show "map ascii_upper (map ascii_lower (b32encode_quantum q)) = b32encode_quantum q"
    unfolding enc map_append
    by (simp only: b32tab2_text(1) [OF x1] b32tab2_text(1) [OF x2] b32tab2_text(1) [OF x3]
        b32tab2_text(1) [OF x4])
  show "CHR ''='' \<notin> set (b32encode_quantum q)"
    unfolding enc set_append
    using b32tab2_text(2) [OF x1] b32tab2_text(2) [OF x2] b32tab2_text(2) [OF x3]
      b32tab2_text(2) [OF x4] by blast
  show "\<not> list_ex (\<lambda>c. 128 \<le> (of_char c :: nat)) (map ascii_lower (b32encode_quantum q))"
    unfolding enc map_append list_ex_append
    using b32tab2_text(3) [OF x1] b32tab2_text(3) [OF x2] b32tab2_text(3) [OF x3]
      b32tab2_text(3) [OF x4] by blast
qed

lemma b32encode_quanta_text:
  assumes "\<forall>q \<in> set qs. length q = 5"
  shows "map ascii_upper (map ascii_lower (concat (map b32encode_quantum qs)))
           = concat (map b32encode_quantum qs)"
    and "CHR ''='' \<notin> set (concat (map b32encode_quantum qs))"
    and "\<not> list_ex (\<lambda>c. 128 \<le> (of_char c :: nat))
           (map ascii_lower (concat (map b32encode_quantum qs)))"
    and "length (concat (map b32encode_quantum qs)) = 8 * length qs"
  using assms
  by (induction qs) (simp_all add: b32encode_quantum_text length_b32encode_quantum del: map_map)

lemma b32decode_quanta_encoded:
  assumes "\<forall>q \<in> set qs. length q = 5"
  shows "\<exists>acc'. b32decode_quanta (decoded, acc) (map b32encode_quantum qs)
           = Inr (decoded @ concat qs, acc')"
  using assms
proof (induction qs arbitrary: decoded acc)
  case Nil
  show ?case by simp
next
  case (Cons q qs)
  then have q: "length q = 5" and qs: "\<forall>q \<in> set qs. length q = 5"
    by simp_all
  from Cons.IH [OF qs, of "decoded @ q" "from_bytes q"] show ?case
    by (simp add: b32_acc_quantum [OF q] be_bytes_from_bytes [OF q])
qed

lemma rstrip_pad_id: "CHR ''='' \<notin> set s \<Longrightarrow> rstrip_pad s = s"
proof -
  assume "CHR ''='' \<notin> set s"
  then have "dropWhile (\<lambda>c. c = CHR ''='') (rev s) = rev s"
    by (cases "rev s") auto
  then show ?thesis
    by (simp add: rstrip_pad_def)
qed

lemma b32decode_b32encode_lower:
  assumes "length bs mod 5 = 0"
  shows "b32decode (map ascii_lower (b32encode bs)) True = Inr bs"
    and "b32encode bs = concat (map b32encode_quantum (chunks 5 bs))"
    and "length (b32encode bs) = 8 * (length bs div 5)"
proof -
  define qs where "qs = chunks 5 bs"
  define enc where "enc = concat (map b32encode_quantum qs)"
  have qs: "\<forall>q \<in> set qs. length q = 5" and bs: "concat qs = bs"
    unfolding qs_def using chunks_multiple [of 5 bs] assms by simp_all
  show e: "b32encode bs = concat (map b32encode_quantum (chunks 5 bs))"
    using assms by (simp add: b32encode_def)
  then have e': "b32encode bs = enc"
    by (simp add: enc_def qs_def)
  have t: "map ascii_upper (map ascii_lower enc) = enc" "CHR ''='' \<notin> set enc"
    "\<not> list_ex (\<lambda>c. 128 \<le> (of_char c :: nat)) (map ascii_lower enc)"
    "length enc = 8 * length qs"
    unfolding enc_def by (rule b32encode_quanta_text [OF qs])+
  have ch: "chunks 8 enc = map b32encode_quantum qs"
    unfolding enc_def by (rule chunks_concat) (simp_all add: length_b32encode_quantum)
  obtain acc' where dq: "b32decode_quanta ([], 0) (map b32encode_quantum qs) = Inr (bs, acc')"
    using b32decode_quanta_encoded [OF qs, of "[]" 0] bs by auto
  have "length (map ascii_lower enc) mod 8 = 0"
    by (simp add: t(4))
  moreover have "rstrip_pad enc = enc"
    by (rule rstrip_pad_id [OF t(2)])
  ultimately show "b32decode (map ascii_lower (b32encode bs)) True = Inr bs"
    unfolding e' b32decode_def
    by (simp only: t(1) t(3) ch dq Let_def if_True if_False length_map) simp
  have "length bs = 5 * length qs"
    using qs unfolding bs [symmetric] by (induction qs) simp_all
  then show "length (b32encode bs) = 8 * (length bs div 5)"
    by (simp add: e' t(4))
qed

section \<open>Properties of the onion addresses\<close>

lemma length_keccak_round: "length (keccak_round a rc) = 25"
  by (simp add: keccak_round_def keccak_iota_def keccak_chi_def)

lemma length_keccak_rounds: "rcs \<noteq> [] \<Longrightarrow> length (foldl keccak_round a rcs) = 25"
  by (cases rcs rule: rev_cases) (simp_all add: length_keccak_round)

lemma length_keccak_f: "length (keccak_f a) = 25"
  unfolding keccak_f_def by (rule length_keccak_rounds) (simp add: keccak_rc_def)

lemma length_keccak_absorb: "length (foldl keccak_absorb a blocks) = length a \<or> length (foldl keccak_absorb a blocks) = 25"
  by (cases blocks rule: rev_cases) (simp_all add: keccak_absorb_def length_keccak_f Let_def)

lemma length_le_bytes_concat: "length (concat (map le_bytes_of_word64 s)) = 8 * length s"
  by (induction s) (simp_all add: le_bytes_of_word64_def)

lemma length_sha3_256: "length (sha3_256 m) = 32"
proof -
  have "length (foldl keccak_absorb (replicate 25 0) (chunks 136 (sha3_256_pad m))) = 25"
    using length_keccak_absorb [of "replicate 25 0" "chunks 136 (sha3_256_pad m)"] by auto
  then show ?thesis
    by (simp add: sha3_256_def length_le_bytes_concat)
qed

lemma length_calc_permanent_id: "length (calc_permanent_id k) = 10"
  by (simp add: calc_permanent_id_def calc_key_digest_def length_sha1)

text \<open>
  C6. Base32-decoding, with case folding, the v2 encoding of a 10-byte permanent id (its
  lower-case base32 text, 16 characters without padding) gives the permanent id back; in
  particular the v2 address that \<open>calc_onion_address\<close> computes for an RSA key decodes
  to the permanent id of the key.
\<close>

theorem v2_address_roundtrip:
  "(length p = 10 \<longrightarrow>
      b32decode (map ascii_lower (b32encode p)) True = Inr p
      \<and> length (map ascii_lower (b32encode p)) = 16)
   \<and> b32decode (calc_onion_address public_bytes (RSAKey k)) True = Inr (calc_permanent_id k)"
proof -
  have a: "b32decode (map ascii_lower (b32encode q)) True = Inr q
      \<and> length (map ascii_lower (b32encode q)) = 16" if "length q = 10" for q
  proof -
    from that have m: "length q mod 5 = 0" by simp
    show ?thesis
      using b32decode_b32encode_lower(1) [OF m] b32decode_b32encode_lower(3) [OF m] that
      by simp
  qed
  have "b32decode (calc_onion_address public_bytes (RSAKey k)) True = Inr (calc_permanent_id k)"
    using a [OF length_calc_permanent_id] by (simp add: calc_onion_address_def)
  with a show ?thesis
    by blast
qed

theorem v2_address_roundtrip_witness:
  "b32decode (map ascii_lower (b32encode [1, 2, 3, 4, 5, 6, 7, 8, 9, 10])) True
     = Inr [1, 2, 3, 4, 5, 6, 7, 8, 9, 10]
   \<and> length (map ascii_lower (b32encode [1, 2, 3, 4, 5, 6, 7, 8, 9, 10])) = 16"
  using v2_address_roundtrip [of "[1, 2, 3, 4, 5, 6, 7, 8, 9, 10]"] by simp

text \<open>
  C7. For a 32-byte Ed25519 public key the v3 address is the lower-case base32 text of
  the public key, the checksum and the version byte \<open>03\<close>: 56 characters, with the
  checksum the first two bytes of SHA3-256 over \<^verbatim>\<open>.onion checksum\<close>, the public key
  and the version byte. Decoding the address gives the 35 bytes back, and the checksum
  computed again from the decoded public key and version is the one it embeds.
\<close>

theorem v3_address_checksum:
  assumes "public_bytes secret = pub_key" and "length pub_key = 32"
    and "checksum = take 2 (sha3_256 (ascii_bytes ''.onion checksum'' @ pub_key @ [0x03]))"
    and "address = calc_onion_address public_bytes (Ed25519PrivateKey secret)"
  shows "address = map ascii_lower (b32encode (pub_key @ checksum @ [0x03]))
    \<and> length address = 56
    \<and> length checksum = 2
    \<and> (\<exists>decoded. b32decode address True = Inr decoded
          \<and> decoded = pub_key @ checksum @ [0x03]
          \<and> take 2 (drop 32 decoded)
              = take 2 (sha3_256 (ascii_bytes ''.onion checksum'' @ take 32 decoded @ drop 34 decoded)))"
proof -
  have cs: "length checksum = 2"
    by (simp add: assms(3) length_sha3_256)
  then have "length (pub_key @ checksum @ [0x03]) = 35"
    by (simp add: assms(2))
  then have len: "length (pub_key @ checksum @ [0x03]) mod 5 = 0"
    "length (pub_key @ checksum @ [0x03]) div 5 = 7"
    by (simp_all del: length_append)
  have addr: "address = map ascii_lower (b32encode (pub_key @ checksum @ [0x03]))"
    by (simp add: assms(4) calc_onion_address_def assms(1) assms(3) base32_encode_str_def)
  have "length address = 56"
    unfolding addr using b32decode_b32encode_lower(3) [OF len(1)] len(2)
    by (simp del: length_append)
  moreover have "b32decode address True = Inr (pub_key @ checksum @ [0x03])"
    unfolding addr by (rule b32decode_b32encode_lower(1) [OF len(1)])
  moreover have "take 2 (drop 32 (pub_key @ checksum @ [0x03])) = checksum"
    using cs assms(2) by simp
  moreover have "take 32 (pub_key @ checksum @ [0x03]) = pub_key"
    "drop 34 (pub_key @ checksum @ [0x03]) = [0x03]"
    using cs assms(2) by simp_all
  ultimately show ?thesis
    using addr cs assms(3) by simp
qed

theorem v3_address_checksum_witness:
  "length (calc_onion_address (\<lambda>secret. secret) (Ed25519PrivateKey (replicate 32 0))) = 56
   \<and> calc_onion_address (\<lambda>secret. secret) (Ed25519PrivateKey (replicate 32 0))
       = map ascii_lower (b32encode (replicate 32 0
           @ take 2 (sha3_256 (ascii_bytes ''.onion checksum'' @ replicate 32 0 @ [0x03])) @ [0x03]))"
proof -
  have l: "length (replicate 32 (0 :: byte)) = 32"
    by simp
  have p: "(\<lambda>secret. secret) (replicate 32 (0 :: byte)) = replicate 32 0"
    by simp
  from v3_address_checksum [of "\<lambda>secret. secret" "replicate 32 0" "replicate 32 0", OF p l refl refl]
  show ?thesis
    by blast
qed

section \<open>Properties of the float rounding\<close>

lemma pow2_mono: "a \<le> b \<Longrightarrow> (2::rat) powi a \<le> 2 powi b"
  by (rule power_int_increasing) simp_all

lemma pow2_less_cancel: "(2::rat) powi a < 2 powi b \<Longrightarrow> a < b"
proof (rule ccontr)
  assume less: "(2::rat) powi a < 2 powi b" and "\<not> a < b"
  then have "b \<le> a" by simp
  from pow2_mono [OF this] less show False by simp
qed

lemma pow2_add: "(2::rat) powi (a + b) = 2 powi a * 2 powi b"
  by (rule power_int_add) simp

lemma bit_length_bounds:
  "0 < n \<Longrightarrow> 0 \<le> bit_length n - 1 \<and> 2 ^ nat (bit_length n - 1) \<le> n \<and> n < 2 ^ nat (bit_length n)"
proof (induction n rule: bit_length.induct)
  case (1 n)
  then have pos: "0 < n" by simp
  have unfold: "bit_length n = 1 + bit_length (n div 2)"
    using pos by (subst bit_length.simps) simp
  show ?case
  proof (cases "n = 1")
    case True
    have "bit_length 1 = 1"
      by (simp add: bit_length.simps [of 1] bit_length.simps [of 0])
    with True show ?thesis by simp
  next
    case False
    with pos have m: "0 < n div 2" by simp
    define b where "b = bit_length (n div 2)"
    from 1(1) [OF _ m] pos have ih: "0 \<le> b - 1" "2 ^ nat (b - 1) \<le> n div 2" "n div 2 < 2 ^ nat b"
      by (simp_all add: b_def)
    have nb: "nat b = Suc (nat (b - 1))"
      using ih(1) by simp
    have "(2::int) ^ nat b = 2 * 2 ^ nat (b - 1)"
      by (simp add: nb)
    also have "\<dots> \<le> 2 * (n div 2)"
      using ih(2) by simp
    also have "\<dots> \<le> n"
      by simp
    finally have lo: "2 ^ nat b \<le> n" .
    have "n < 2 * (n div 2) + 2"
      by simp
    also have "\<dots> \<le> 2 * 2 ^ nat b"
      using ih(3) by simp
    finally have hi: "n < 2 ^ Suc (nat b)"
      by simp
    have "nat (1 + b) = Suc (nat b)" "nat (1 + b - 1) = nat b" "0 \<le> 1 + b - 1"
      using ih(1) by simp_all
    with lo hi show ?thesis
      unfolding unfold b_def [symmetric] by simp
  qed
qed

lemma flog2_bounds:
  assumes "0 < x"
  shows "2 powi flog2 x \<le> x" and "x < 2 powi (flog2 x + 1)"
proof -
  have "2 powi flog2 x \<le> x \<and> x < 2 powi (flog2 x + 1)"
  proof (cases "1 \<le> x")
    case True
    define n where "n = \<lfloor>x\<rfloor>"
    have n: "0 < n" "of_int n \<le> x" "x < of_int n + 1"
      using True floor_correct [of x] by (simp_all add: n_def)
    from bit_length_bounds [OF n(1)]
    have b: "0 \<le> bit_length n - 1" "2 ^ nat (bit_length n - 1) \<le> n" "n < 2 ^ nat (bit_length n)"
      by simp_all
    have f: "flog2 x = bit_length n - 1"
      using True by (simp add: flog2_def n_def)
    have "(2::rat) powi (bit_length n - 1) = of_int (2 ^ nat (bit_length n - 1))"
      using b(1) by (simp add: power_int_def)
    also have "\<dots> \<le> of_int n"
      using b(2) by (simp only: of_int_le_iff)
    finally have lo: "2 powi flog2 x \<le> x"
      using n(2) by (simp add: f)
    have "n + 1 \<le> 2 ^ nat (bit_length n)"
      using b(3) by simp
    then have "(of_int (n + 1) :: rat) \<le> of_int (2 ^ nat (bit_length n))"
      by (simp only: of_int_le_iff)
    also have "\<dots> = 2 powi (bit_length n)"
      using b(1) by (simp add: power_int_def)
    finally have "x < 2 powi (flog2 x + 1)"
      using n(3) by (simp add: f)
    with lo show ?thesis ..
  next
    case False
    define y where "y = 1 / x"
    define m where "m = \<lceil>y\<rceil> - 1"
    have y: "1 < y" "x = 1 / y"
      using False assms by (simp_all add: y_def)
    have m: "0 < m" "of_int m < y" "y \<le> of_int m + 1"
      using y(1) ceiling_correct [of y] by (simp_all add: m_def less_ceiling_iff)
    from bit_length_bounds [OF m(1)]
    have b: "0 \<le> bit_length m - 1" "2 ^ nat (bit_length m - 1) \<le> m" "m < 2 ^ nat (bit_length m)"
      by simp_all
    have f: "flog2 x = - bit_length m"
      using False by (simp add: flog2_def m_def y_def)
    have "m + 1 \<le> 2 ^ nat (bit_length m)"
      using b(3) by simp
    then have "(of_int (m + 1) :: rat) \<le> of_int (2 ^ nat (bit_length m))"
      by (simp only: of_int_le_iff)
    also have "\<dots> = 2 powi (bit_length m)"
      using b(1) by (simp add: power_int_def)
    finally have yb: "y \<le> 2 powi (bit_length m)"
      using m(3) by simp
    have xy: "1 / y = x"
      by (simp add: y_def)
    have ypos: "0 < y"
      using y(1) by simp
    have "(2::rat) powi flog2 x = 1 / 2 powi (bit_length m)"
      by (simp only: f power_int_minus_divide)
    also have "\<dots> \<le> 1 / y"
      by (rule frac_le [OF _ order_refl ypos yb]) simp
    finally have lo: "2 powi flog2 x \<le> x"
      by (simp only: xy)
    have "(2::rat) powi (bit_length m - 1) = of_int (2 ^ nat (bit_length m - 1))"
      using b(1) by (simp add: power_int_def)
    also have "\<dots> \<le> of_int m"
      using b(2) by (simp only: of_int_le_iff)
    finally have below: "2 powi (bit_length m - 1) < y"
      using m(2) by simp
    have "x = 1 / y"
      by (simp only: xy)
    also have "\<dots> < 1 / 2 powi (bit_length m - 1)"
      by (rule divide_strict_left_mono [OF below]) (simp_all add: ypos)
    also have "\<dots> = 2 powi (- (bit_length m - 1))"
      by (simp only: power_int_minus_divide)
    also have "- (bit_length m - 1) = flog2 x + 1"
      by (simp add: f)
    finally have "x < 2 powi (flog2 x + 1)" .
    with lo show ?thesis ..
  qed
  then show "2 powi flog2 x \<le> x" and "x < 2 powi (flog2 x + 1)"
    by simp_all
qed

lemma flog2_unique:
  assumes "2 powi e \<le> x" and "x < 2 powi (e + 1)"
  shows "flog2 x = e"
proof -
  have pos: "0 < x"
    by (rule less_le_trans [OF _ assms(1)]) simp
  have "(2::rat) powi flog2 x < 2 powi (e + 1)"
    using flog2_bounds(1) [OF pos] assms(2) by simp
  then have "flog2 x < e + 1"
    by (rule pow2_less_cancel)
  moreover have "(2::rat) powi e < 2 powi (flog2 x + 1)"
    using flog2_bounds(2) [OF pos] assms(1) by simp
  then have "e < flog2 x + 1"
    by (rule pow2_less_cancel)
  ultimately show ?thesis by simp
qed

lemma flog2_mono:
  assumes "0 < x" and "x \<le> y"
  shows "flog2 x \<le> flog2 y"
proof -
  have "0 < y" using assms by simp
  have "(2::rat) powi flog2 x < 2 powi (flog2 y + 1)"
    using flog2_bounds(1) [OF assms(1)] flog2_bounds(2) [OF \<open>0 < y\<close>] assms(2) by simp
  then have "flog2 x < flog2 y + 1"
    by (rule pow2_less_cancel)
  then show ?thesis by simp
qed

lemma rne_of_int: "rne (of_int n) = n"
  by (simp add: rne_def)

lemma rne_floor: "\<lfloor>x\<rfloor> \<le> rne x" and rne_floor1: "rne x \<le> \<lfloor>x\<rfloor> + 1"
  by (simp_all add: rne_def Let_def)

lemma rne_mono:
  assumes "x \<le> y"
  shows "rne x \<le> rne y"
proof (cases "\<lfloor>x\<rfloor> = \<lfloor>y\<rfloor>")
  case True
  have "x - of_int \<lfloor>y\<rfloor> \<le> y - of_int \<lfloor>y\<rfloor>"
    using assms by simp
  then show ?thesis
    by (auto simp: rne_def Let_def True)
next
  case False
  with floor_mono [OF assms] have "\<lfloor>x\<rfloor> + 1 \<le> \<lfloor>y\<rfloor>"
    by simp
  with rne_floor1 [of x] rne_floor [of y] show ?thesis
    by linarith
qed

lemma rne_lower: "of_int n \<le> x \<Longrightarrow> n \<le> rne x"
  using rne_mono [of "of_int n" x] by (simp add: rne_of_int)

lemma rne_upper: "x \<le> of_int n \<Longrightarrow> rne x \<le> n"
  using rne_mono [of x "of_int n"] by (simp add: rne_of_int)

lemma rne_error: "\<bar>of_int (rne x) - x\<bar> \<le> 1 / 2"
proof -
  have "of_int \<lfloor>x\<rfloor> \<le> x" "x < of_int \<lfloor>x\<rfloor> + 1"
    using floor_correct [of x] by simp_all
  then show ?thesis
    by (auto simp: rne_def Let_def abs_le_iff)
qed

lemma rne_below_half:
  assumes "x < of_int n + 1 / 2"
  shows "rne x \<le> n"
proof (cases "\<lfloor>x\<rfloor> < n")
  case True
  with rne_floor1 [of x] show ?thesis by simp
next
  case False
  have "x < of_int (n + 1)"
    using assms by simp
  then have "\<lfloor>x\<rfloor> < n + 1"
    by (simp only: floor_less_iff)
  with False have f: "\<lfloor>x\<rfloor> = n" by simp
  then have "x - of_int \<lfloor>x\<rfloor> < 1 / 2"
    using assms by simp
  then show ?thesis
    by (simp add: rne_def Let_def f)
qed

lemma round_double_pos:
  assumes "0 < x"
  shows "round_double x =
    of_int (rne (x / 2 powi (max (flog2 x) (- 1022) - 52))) * 2 powi (max (flog2 x) (- 1022) - 52)"
  using assms by (simp add: round_double_def Let_def)

lemma round_double_nonneg:
  assumes "0 \<le> x"
  shows "0 \<le> round_double x"
proof (cases "x = 0")
  case True
  then show ?thesis by (simp add: round_double_def)
next
  case False
  with assms have pos: "0 < x" by simp
  define u :: rat where "u = 2 powi (max (flog2 x) (- 1022) - 52)"
  have u: "0 < u" by (simp add: u_def)
  have "of_int 0 \<le> x / u"
    using pos u by simp
  then have "0 \<le> rne (x / u)"
    by (rule rne_lower)
  then show ?thesis
    unfolding round_double_pos [OF pos] u_def [symmetric] using u by simp
qed

text \<open>A value with a significand below \<open>2^53\<close> and an exponent of at least \<open>-1074\<close> is a double.\<close>

lemma round_double_exact:
  assumes "0 < m" and "m < 2 ^ 53" and "- 1074 \<le> k"
  shows "round_double (of_int m * 2 powi k) = of_int m * 2 powi k"
proof -
  define x :: rat where "x = of_int m * 2 powi k"
  have pos: "0 < x"
    using assms(1) by (simp add: x_def)
  define e where "e = max (flog2 x) (- 1022)"
  have "x < 2 ^ 53 * 2 powi k"
    unfolding x_def using assms(2) by (simp add: of_int_less_iff [of m "2 ^ 53", where ?'a = rat, simplified])
  also have "\<dots> = 2 powi (53 + k)"
    by (simp add: pow2_add)
  finally have "2 powi flog2 x < (2::rat) powi (53 + k)"
    using flog2_bounds(1) [OF pos] by simp
  then have "flog2 x < 53 + k"
    by (rule pow2_less_cancel)
  with assms(3) have j: "0 \<le> k - (e - 52)"
    by (simp add: e_def)
  have "x / 2 powi (e - 52) = of_int m * (2 powi k / 2 powi (e - 52))"
    by (simp add: x_def)
  also have "(2::rat) powi k / 2 powi (e - 52) = 2 powi (k - (e - 52))"
    by (simp add: power_int_diff)
  also have "\<dots> = of_int (2 ^ nat (k - (e - 52)))"
    using j by (simp add: power_int_def)
  finally have q: "x / 2 powi (e - 52) = of_int (m * 2 ^ nat (k - (e - 52)))"
    by simp
  have "round_double x = of_int (m * 2 ^ nat (k - (e - 52))) * 2 powi (e - 52)"
    unfolding round_double_pos [OF pos] e_def [symmetric] q rne_of_int ..
  also have "\<dots> = x / 2 powi (e - 52) * 2 powi (e - 52)"
    by (simp only: q)
  also have "\<dots> = x"
    by simp
  finally show ?thesis
    by (simp add: x_def)
qed

lemma round_double_int:
  assumes "0 \<le> n" and "n < 2 ^ 53"
  shows "round_double (of_int n) = of_int n"
proof (cases "n = 0")
  case True
  then show ?thesis by (simp add: round_double_def)
next
  case False
  with assms(1) have "0 < n" by simp
  from round_double_exact [OF this assms(2), of 0] show ?thesis by simp
qed

lemma round_double_half:
  assumes "0 \<le> h" and "h < 2 ^ 53"
  shows "round_double (of_int h / 2) = of_int h / 2"
proof (cases "h = 0")
  case True
  then show ?thesis by (simp add: round_double_def)
next
  case False
  with assms(1) have "0 < h" by simp
  from round_double_exact [OF this assms(2), of "- 1"] show ?thesis by simp
qed

text \<open>The relative error of a rounding in the normal range is at most \<open>2^-53\<close>.\<close>

lemma round_double_error:
  assumes "2 powi (- 1022) \<le> x"
  shows "\<bar>round_double x - x\<bar> \<le> x * 2 powi (- 53)"
proof -
  have pos: "0 < x"
    by (rule less_le_trans [OF _ assms]) simp
  define e where "e = flog2 x"
  define u :: rat where "u = 2 powi (e - 52)"
  have u: "0 < u" by (simp add: u_def)
  have "(2::rat) powi (- 1022) < 2 powi (e + 1)"
    using flog2_bounds(2) [OF pos] assms by (simp add: e_def)
  then have "- 1022 < e + 1"
    by (rule pow2_less_cancel)
  then have m: "max (flog2 x) (- 1022) = e"
    by (simp add: e_def)
  have "round_double x - x = (of_int (rne (x / u)) - x / u) * u"
    unfolding round_double_pos [OF pos] m u_def [symmetric]
    using u by (simp add: left_diff_distrib)
  then have "\<bar>round_double x - x\<bar> = \<bar>of_int (rne (x / u)) - x / u\<bar> * \<bar>u\<bar>"
    by (simp only: abs_mult)
  also have "\<bar>u\<bar> = u"
    using u by simp
  finally have "\<bar>round_double x - x\<bar> = \<bar>of_int (rne (x / u)) - x / u\<bar> * u" .
  also have "\<dots> \<le> 1 / 2 * u"
    by (rule mult_right_mono [OF rne_error]) (simp add: u_def)
  also have "\<dots> = 2 powi e * 2 powi (- 53)"
    by (simp add: u_def pow2_add [symmetric] power_int_diff)
  also have "\<dots> \<le> x * 2 powi (- 53)"
    by (rule mult_right_mono) (use flog2_bounds(1) [OF pos] in \<open>simp_all add: e_def\<close>)
  finally show ?thesis .
qed

lemma pow2_mult_eq: "a + b = c \<Longrightarrow> (2::rat) powi a * 2 powi b = 2 powi c"
  by (simp only: pow2_add [symmetric])

lemma round_double_mono:
  assumes "0 \<le> x" and "x \<le> y"
  shows "round_double x \<le> round_double y"
proof (cases "x = 0")
  case True
  have "0 \<le> round_double y"
    using assms by (intro round_double_nonneg) simp
  with True show ?thesis by (simp add: round_double_def)
next
  case False
  with assms have px: "0 < x" and py: "0 < y" by simp_all
  define ex where "ex = max (flog2 x) (- 1022)"
  define ey where "ey = max (flog2 y) (- 1022)"
  define ux :: rat where "ux = 2 powi (ex - 52)"
  define uy :: rat where "uy = 2 powi (ey - 52)"
  have u: "0 < ux" "0 < uy" by (simp_all add: ux_def uy_def)
  have rx: "round_double x = of_int (rne (x / ux)) * ux"
    unfolding ux_def ex_def by (rule round_double_pos [OF px])
  have ry: "round_double y = of_int (rne (y / uy)) * uy"
    unfolding uy_def ey_def by (rule round_double_pos [OF py])
  have le: "ex \<le> ey"
    using flog2_mono [OF px assms(2)] by (simp add: ex_def ey_def)
  show ?thesis
  proof (cases "ex = ey")
    case True
    then have same: "uy = ux" by (simp add: ux_def uy_def)
    have "x / ux \<le> y / ux"
      using assms(2) u(1) by (simp add: divide_right_mono)
    then have "rne (x / ux) \<le> rne (y / ux)"
      by (rule rne_mono)
    then have "(of_int (rne (x / ux)) :: rat) \<le> of_int (rne (y / ux))"
      by (simp only: of_int_le_iff)
    then show ?thesis
      unfolding rx ry same using u(1) by (simp add: mult_right_mono)
  next
    case False
    with le have less: "ex < ey" by simp
    then have fy: "ey = flog2 y"
      by (auto simp: ey_def ex_def max_def split: if_splits)
    have "x < 2 powi (flog2 x + 1)"
      by (rule flog2_bounds(2) [OF px])
    also have "\<dots> \<le> 2 powi (ex + 1)"
      by (rule pow2_mono) (simp add: ex_def)
    finally have xlt: "x < 2 powi (ex + 1)" .
    have "x / ux \<le> 2 powi (ex + 1) / ux"
      using xlt u(1) by (simp add: divide_right_mono)
    also have "\<dots> = 2 powi 53"
      by (simp add: ux_def power_int_diff [symmetric])
    also have "\<dots> = of_int (2 ^ 53)"
      by simp
    finally have "rne (x / ux) \<le> 2 ^ 53"
      by (rule rne_upper)
    then have "(of_int (rne (x / ux)) :: rat) \<le> of_int (2 ^ 53)"
      by (simp only: of_int_le_iff)
    then have "round_double x \<le> of_int (2 ^ 53) * ux"
      unfolding rx using u(1) by (simp only: mult_right_mono less_imp_le)
    also have "\<dots> = 2 powi 53 * 2 powi (ex - 52)"
      by (simp add: ux_def)
    also have "\<dots> = 2 powi (ex + 1)"
      by (rule pow2_mult_eq) simp
    also have "\<dots> \<le> 2 powi ey"
      by (rule pow2_mono) (use less in simp)
    finally have upper: "round_double x \<le> 2 powi ey" .
    have "2 powi ey \<le> y"
      unfolding fy by (rule flog2_bounds(1) [OF py])
    then have "2 powi ey / uy \<le> y / uy"
      using u(2) by (simp add: divide_right_mono)
    moreover have "2 powi ey / uy = of_int (2 ^ 52)"
      by (simp add: uy_def power_int_diff [symmetric])
    ultimately have "of_int (2 ^ 52) \<le> y / uy"
      by simp
    then have "2 ^ 52 \<le> rne (y / uy)"
      by (rule rne_lower)
    then have "(of_int (2 ^ 52) :: rat) \<le> of_int (rne (y / uy))"
      by (simp only: of_int_le_iff)
    then have "of_int (2 ^ 52) * uy \<le> round_double y"
      unfolding ry using u(2) by (simp only: mult_right_mono less_imp_le)
    moreover have "of_int (2 ^ 52) * uy = 2 powi ey"
    proof -
      have "of_int (2 ^ 52) * uy = 2 powi 52 * 2 powi (ey - 52)"
        by (simp add: uy_def)
      also have "\<dots> = 2 powi ey"
        by (rule pow2_mult_eq) simp
      finally show ?thesis .
    qed
    ultimately have "2 powi ey \<le> round_double y"
      by simp
    with upper show ?thesis
      by simp
  qed
qed

text \<open>
  Below \<open>2^1024 - 2^970\<close>, the midpoint between the largest double and \<open>2^1024\<close>, a
  rounding stays in the range of the doubles.
\<close>

lemma round_double_in_range:
  assumes "0 \<le> x" and "x < 2 ^ 1024 - 2 ^ 970"
  shows "round_double x \<le> 2 ^ 1024 - 2 ^ 971"
proof (cases "x < 2 ^ 1023")
  case True
  have "round_double x \<le> round_double (of_int 1 * 2 powi 1023)"
    by (rule round_double_mono [OF assms(1)]) (use True in simp)
  also have "\<dots> = of_int 1 * 2 powi 1023"
    by (rule round_double_exact) simp_all
  also have "\<dots> \<le> 2 ^ 1024 - 2 ^ 971"
    by simp
  finally show ?thesis .
next
  case False
  then have lo: "2 powi 1023 \<le> x" by simp
  have pos: "0 < x"
    by (rule less_le_trans [OF _ lo]) simp
  have "x < 2 powi (1023 + 1)"
    using assms(2) by simp
  with lo have f: "flog2 x = 1023"
    by (rule flog2_unique)
  define u :: rat where "u = 2 powi 971"
  have u: "0 < u" by (simp add: u_def)
  have rd: "round_double x = of_int (rne (x / u)) * u"
    unfolding round_double_pos [OF pos] f u_def by simp
  have "(2::rat) ^ 1024 - 2 ^ 970 = (of_int (2 ^ 53 - 1) + 1 / 2) * u"
    unfolding u_def by simp
  with assms(2) have "x < (of_int (2 ^ 53 - 1) + 1 / 2) * u"
    by simp
  then have "x / u < of_int (2 ^ 53 - 1) + 1 / 2"
    using u by (simp add: pos_divide_less_eq)
  then have "rne (x / u) \<le> 2 ^ 53 - 1"
    by (rule rne_below_half)
  then have "(of_int (rne (x / u)) :: rat) \<le> of_int (2 ^ 53 - 1)"
    by (simp only: of_int_le_iff)
  then have "round_double x \<le> of_int (2 ^ 53 - 1) * u"
    unfolding rd using u by (simp only: mult_right_mono less_imp_le)
  also have "\<dots> = 2 ^ 1024 - 2 ^ 971"
    unfolding u_def by simp
  finally show ?thesis .
qed

lemma to_float_finite:
  assumes "0 \<le> x" and "x < 2 ^ 1024 - 2 ^ 970"
  shows "to_float x = Finite (round_double x)"
proof -
  have "0 \<le> round_double x"
    by (rule round_double_nonneg [OF assms(1)])
  moreover have "- (2 ^ 1024) < (0::rat)"
    by simp
  ultimately have "\<not> round_double x \<le> - (2 ^ 1024)"
    by linarith
  moreover have "(2::rat) ^ 1024 - 2 ^ 971 < 2 ^ 1024"
    by simp
  with round_double_in_range [OF assms] have "\<not> 2 ^ 1024 \<le> round_double x"
    by linarith
  ultimately show ?thesis
    by (simp add: to_float_def Let_def)
qed


lemma int_to_float_in_range:
  assumes "0 \<le> t" and "t < 2 ^ 1024 - 2 ^ 970"
  shows "int_to_float t = Inr (round_double (of_int t))"
proof -
  have "(of_int t :: rat) < of_int (2 ^ 1024 - 2 ^ 970)"
    using assms(2) by (simp only: of_int_less_iff)
  then have "(of_int t :: rat) < 2 ^ 1024 - 2 ^ 970"
    by simp
  moreover have "(0::rat) \<le> of_int t"
    using assms(1) by simp
  ultimately show ?thesis
    by (simp add: int_to_float_def to_float_finite)
qed

lemma int_to_float_86400: "int_to_float 86400 = Inr 86400"
proof -
  have "round_double (of_int 86400) = of_int 86400"
    by (rule round_double_int) simp_all
  with int_to_float_in_range [of 86400] show ?thesis
    by simp
qed

lemma phase_offset:
  assumes "0 \<le> ph" and "ph < 256"
  shows "int_truediv (ph * 86400) 256 = Inr (Finite (of_int (ph * 675) / 2))"
proof -
  define h where "h = ph * 675"
  have h: "0 \<le> h" "h < 2 ^ 53"
    using assms by (simp_all add: h_def)
  have q: "(of_int (ph * 86400) / of_int 256 :: rat) = of_int h / 2"
    by (simp add: h_def)
  have "(of_int h / 2 :: rat) \<le> of_int (2 ^ 53) / 2"
    using h(2) by simp
  also have "\<dots> < 2 ^ 1024 - 2 ^ 970"
    by simp
  finally have "to_float (of_int h / 2) = Finite (round_double (of_int h / 2))"
    using h(1) by (intro to_float_finite) simp_all
  then have "to_float (of_int h / 2) = Finite (of_int h / 2)"
    by (simp only: round_double_half [OF h])
  then show ?thesis
    unfolding int_truediv_def q h_def [symmetric] by simp
qed

section \<open>Properties of the time period\<close>

lemma shifted_time_float:
  assumes "0 \<le> t" and "t < 2 ^ 1024 - 2 ^ 970" and "0 \<le> ph" and "ph < 256"
  shows "int_add_float t (Finite (of_int (ph * 675) / 2)) = Inr (Finite (shifted_time t ph))"
    and "0 \<le> shifted_time t ph"
    and "shifted_time t ph \<le> 2 ^ 1024 - 2 ^ 971"
proof -
  define s0 where "s0 = round_double (of_int t)"
  define off :: rat where "off = of_int (ph * 675) / 2"
  have t: "(0::rat) \<le> of_int t" "(of_int t :: rat) < 2 ^ 1024 - 2 ^ 970"
  proof -
    show "(0::rat) \<le> of_int t" using assms(1) by simp
    have "(of_int t :: rat) < of_int (2 ^ 1024 - 2 ^ 970)"
      using assms(2) by (simp only: of_int_less_iff)
    then show "(of_int t :: rat) < 2 ^ 1024 - 2 ^ 970" by simp
  qed
  have s0: "0 \<le> s0" "s0 \<le> 2 ^ 1024 - 2 ^ 971"
    unfolding s0_def by (rule round_double_nonneg [OF t(1)], rule round_double_in_range [OF t])
  have off: "0 \<le> off" "off < 100000"
    using assms(3,4) by (simp_all add: off_def)
  have sum: "0 \<le> s0 + off" "s0 + off < 2 ^ 1024 - 2 ^ 970"
  proof -
    show "0 \<le> s0 + off" using s0(1) off(1) by simp
    have "(2::rat) ^ 1024 - 2 ^ 971 + 100000 < 2 ^ 1024 - 2 ^ 970" by simp
    then show "s0 + off < 2 ^ 1024 - 2 ^ 970" using s0(2) off(2) by linarith
  qed
  have st: "shifted_time t ph = round_double (s0 + off)"
    by (simp only: shifted_time_def s0_def off_def)
  have "int_add_float t (Finite off) = Inr (Finite (round_double (s0 + off)))"
    unfolding int_add_float_def int_to_float_in_range [OF assms(1,2)] s0_def [symmetric]
    by (simp add: to_float_finite [OF sum])
  then show "int_add_float t (Finite (of_int (ph * 675) / 2)) = Inr (Finite (shifted_time t ph))"
    by (simp only: st off_def)
  show "0 \<le> shifted_time t ph"
    unfolding st by (rule round_double_nonneg [OF sum(1)])
  show "shifted_time t ph \<le> 2 ^ 1024 - 2 ^ 971"
    unfolding st by (rule round_double_in_range [OF sum])
qed

lemma truncate_nonneg: "0 \<le> x \<Longrightarrow> truncate x = \<lfloor>x\<rfloor>"
  by (simp add: truncate_def)

lemma uint_byte_bounds: "0 \<le> uint (b :: byte)" "uint (b :: byte) < 256"
  using uint_bounded [of b] by simp_all

lemma get_time_period_value:
  assumes "0 \<le> t" and "t < 2 ^ 1024 - 2 ^ 970"
  shows "get_time_period t (b # rest) = Inr \<lfloor>round_double (shifted_time t (uint b) / 86400)\<rfloor>"
proof -
  note s = shifted_time_float [OF assms uint_byte_bounds, of b]
  define q where "q = shifted_time t (uint b) / 86400"
  have q: "0 \<le> q" "q < 2 ^ 1024 - 2 ^ 970"
  proof -
    show "0 \<le> q" using s(2) by (simp add: q_def)
    have "q \<le> shifted_time t (uint b)"
      using s(2) by (simp add: q_def field_simps)
    moreover have "(2::rat) ^ 1024 - 2 ^ 971 < 2 ^ 1024 - 2 ^ 970" by simp
    ultimately show "q < 2 ^ 1024 - 2 ^ 970" using s(3) by linarith
  qed
  have 1: "struct_unpack_B (take 1 (b # rest)) = Inr (uint b)"
    by (simp add: struct_unpack_B_def)
  note 2 = phase_offset [OF uint_byte_bounds, of b]
  have 4: "float_div_int (Finite (shifted_time t (uint b))) 86400 = Inr (Finite (round_double q))"
    by (simp add: float_div_int_def int_to_float_86400 q_def [symmetric] to_float_finite [OF q])
  have 5: "int_of_float (Finite (round_double q)) = Inr \<lfloor>round_double q\<rfloor>"
    by (simp add: int_of_float_def truncate_nonneg [OF round_double_nonneg [OF q(1)]])
  show ?thesis
    unfolding get_time_period_def q_def [symmetric]
    by (simp only: 1 2 s(1) 4 5 sum.case)
qed

lemma get_seconds_valid_value:
  assumes "0 \<le> t" and "t < 2 ^ 1024 - 2 ^ 970"
  shows "get_seconds_valid t (b # rest) =
    Inr (86400 - \<lfloor>shifted_time t (uint b)
                    - 86400 * of_int \<lfloor>shifted_time t (uint b) / 86400\<rfloor>\<rfloor>)"
proof -
  note s = shifted_time_float [OF assms uint_byte_bounds, of b]
  define x where "x = shifted_time t (uint b)"
  define m where "m = x - 86400 * of_int \<lfloor>x / 86400\<rfloor>"
  have "of_int \<lfloor>x / 86400\<rfloor> * 86400 \<le> x"
    using of_int_floor_le [of "x / 86400"] by (simp add: pos_le_divide_eq)
  then have m: "0 \<le> m"
    by (simp add: m_def)
  have "0 \<le> x / 86400"
    using s(2) by (simp add: x_def)
  then have fm: "fmod x 86400 = m"
    by (simp add: fmod_def m_def truncate_nonneg)
  have 1: "struct_unpack_B (take 1 (b # rest)) = Inr (uint b)"
    by (simp add: struct_unpack_B_def)
  note 2 = phase_offset [OF uint_byte_bounds, of b]
  have 4: "float_mod_int (Finite x) 86400 = Inr (Finite m)"
    using m by (simp add: float_mod_int_def int_to_float_86400 fm Let_def)
  have 5: "int_of_float (Finite m) = Inr \<lfloor>m\<rfloor>"
    by (simp add: int_of_float_def truncate_nonneg [OF m])
  show ?thesis
    unfolding get_seconds_valid_def x_def [symmetric] m_def [symmetric]
    by (simp only: 1 2 s(1) [folded x_def] 4 5 sum.case)
qed

text \<open>
  Where every intermediate value is a double, nothing is rounded before the division,
  and the rounding of the quotient cannot reach the next integer.
\<close>

lemma round_double_quotient_floor:
  assumes "0 \<le> h" and "h < 2 ^ 53"
  shows "\<lfloor>round_double (of_int h / 172800)\<rfloor> = h div 172800"
proof -
  define k where "k = h div 172800"
  define r where "r = h mod 172800"
  define q :: rat where "q = of_int h / 172800"
  have hk: "h = 172800 * k + r" and r: "0 \<le> r" "r < 172800"
    by (simp_all add: k_def r_def)
  have k: "0 \<le> k" "k < 2 ^ 53"
    using assms by (simp_all add: k_def pos_imp_zdiv_nonneg_iff)
  have qk: "q = of_int k + of_int r / 172800"
    by (simp add: q_def hk)
  show ?thesis
  proof (cases "r = 0")
    case True
    then have "q = of_int k" by (simp add: qk)
    then have "round_double q = of_int k"
      using round_double_int [OF k] by simp
    then show ?thesis
      by (simp add: q_def [symmetric] k_def [symmetric])
  next
    case False
    with r have r1: "1 \<le> r" "r \<le> 172799" by simp_all
    have lo: "of_int k + 1 / 172800 \<le> q"
      using r1(1) by (simp add: qk)
    have hi: "q \<le> of_int k + 1 - 1 / 172800"
    proof -
      have "(of_int r :: rat) \<le> 172799"
        using r1(2) by simp
      then show ?thesis by (simp add: qk)
    qed
    have "(of_int h :: rat) < 2 ^ 53"
      using assms(2) by simp
    then have qlt: "q < 2 ^ 53 / 172800"
      by (simp add: q_def)
    have "(0::rat) \<le> of_int k"
      using k(1) by simp
    with lo have "1 / 172800 \<le> q" by linarith
    moreover have "(2::rat) powi (- 1022) \<le> 1 / 172800"
      by (simp add: power_int_minus field_simps)
    ultimately have "2 powi (- 1022) \<le> q" by linarith
    from round_double_error [OF this]
    have "\<bar>round_double q - q\<bar> \<le> q * 2 powi (- 53)" .
    also have "\<dots> < 2 ^ 53 / 172800 * 2 powi (- 53)"
      using qlt by (simp add: power_int_minus)
    also have "\<dots> = 1 / 172800"
      by (simp add: power_int_minus)
    finally have err: "\<bar>round_double q - q\<bar> < 1 / 172800" .
    have "of_int k \<le> round_double q" "round_double q < of_int k + 1"
      using err lo hi unfolding abs_less_iff by linarith+
    then have "\<lfloor>round_double q\<rfloor> = k"
      by (simp add: floor_unique)
    then show ?thesis
      by (simp add: q_def k_def)
  qed
qed

lemma shifted_time_exact:
  assumes "0 \<le> t" and "t + 86400 \<le> 2 ^ 52" and "0 \<le> ph" and "ph < 256"
  shows "shifted_time t ph = of_int (2 * t + 675 * ph) / 2"
    and "0 \<le> 2 * t + 675 * ph" and "2 * t + 675 * ph < 2 ^ 53"
proof -
  have t: "t < 2 ^ 53"
    using assms(2) by simp
  show h: "0 \<le> 2 * t + 675 * ph" "2 * t + 675 * ph < 2 ^ 53"
    using assms by simp_all
  have "round_double (of_int t) + of_int (ph * 675) / 2 = (of_int (2 * t + 675 * ph) / 2 :: rat)"
    by (simp add: round_double_int [OF assms(1) t])
  then show "shifted_time t ph = of_int (2 * t + 675 * ph) / 2"
    by (simp only: shifted_time_def round_double_half [OF h])
qed

lemma get_time_period_small:
  assumes "0 \<le> t" and "t + 86400 \<le> 2 ^ 52"
  shows "get_time_period t (b # rest) = Inr ((2 * t + 675 * uint b) div 172800)"
proof -
  have range: "t < 2 ^ 1024 - 2 ^ 970"
    using assms(2) by simp
  note e = shifted_time_exact [OF assms uint_byte_bounds, of b]
  have "(of_int (2 * t + 675 * uint b) / 2 / 86400 :: rat) = of_int (2 * t + 675 * uint b) / 172800"
    by simp
  then show ?thesis
    by (simp only: get_time_period_value [OF assms(1) range] e(1)
        round_double_quotient_floor [OF e(2,3)])
qed

lemma get_seconds_valid_small:
  assumes "0 \<le> t" and "t + 86400 \<le> 2 ^ 52"
  shows "get_seconds_valid t (b # rest) = Inr (86400 - (2 * t + 675 * uint b) mod 172800 div 2)"
proof -
  have range: "t < 2 ^ 1024 - 2 ^ 970"
    using assms(2) by simp
  note e = shifted_time_exact [OF assms uint_byte_bounds, of b]
  define h where "h = 2 * t + 675 * uint b"
  have q: "(of_int h / 2 / 86400 :: rat) = of_int h / of_int 172800"
    by simp
  have "(of_int h / 2 - 86400 * of_int (h div 172800) :: rat) = of_int (h - 172800 * (h div 172800)) / of_int 2"
    by (simp add: field_simps)
  also have "h - 172800 * (h div 172800) = h mod 172800"
    by (simp add: minus_mult_div_eq_mod)
  finally have "\<lfloor>(of_int h / 2 - 86400 * of_int (h div 172800) :: rat)\<rfloor> = h mod 172800 div 2"
    by (simp only: floor_divide_of_int_eq)
  then show ?thesis
    unfolding get_seconds_valid_value [OF assms(1) range] e(1) h_def [symmetric] q
    by (simp only: floor_divide_of_int_eq)
qed

lemma floor_rat_divide_numeral [simp]:
  "\<lfloor>(numeral a / numeral b :: rat)\<rfloor> = numeral a div numeral b"
  using floor_divide_of_int_eq [of "numeral a" "numeral b", where ?'a = rat] by simp

lemma floor_rat_one_divide_numeral [simp]:
  "\<lfloor>(1 / numeral b :: rat)\<rfloor> = 1 div numeral b"
  using floor_divide_of_int_eq [of 1 "numeral b", where ?'a = rat] by simp

lemma offset_div: "(ph :: int) * 86400 div 256 = 675 * ph div 2"
proof -
  have "ph * 86400 div 256 = (675 * ph) * 128 div (2 * 128)"
    by simp
  also have "\<dots> = 675 * ph div 2"
    by (rule div_mult_mult2) simp
  finally show ?thesis .
qed

lemma halves_div: "(2 * t + h :: int) div 172800 = (t + h div 2) div 86400"
proof -
  have "(2 * t + h) div 172800 = (2 * t + h) div (2 * 86400)"
    by simp
  also have "\<dots> = (2 * t + h) div 2 div 86400"
    by (rule zdiv_zmult2_eq) simp
  also have "(2 * t + h) div 2 = t + h div 2"
    by simp
  finally show ?thesis .
qed

lemma halves_mod: "(2 * t + h :: int) mod 172800 div 2 = (t + h div 2) mod 86400"
proof -
  define x where "x = 2 * t + h"
  have "x mod 172800 = x mod (2 * 86400)"
    by simp
  also have "\<dots> = 2 * (x div 2 mod 86400) + x mod 2"
    by (rule zmod_zmult2_eq) simp
  finally have "x mod 172800 div 2 = (2 * (x div 2 mod 86400) + x mod 2) div 2"
    by simp
  also have "\<dots> = x div 2 mod 86400"
    by simp
  also have "x div 2 = t + h div 2"
    by (simp add: x_def)
  finally show ?thesis
    by (simp add: x_def)
qed

lemma round_double_2_53_odd: "round_double 9007199254799999 = 9007199254800000"
proof -
  have f: "flog2 9007199254799999 = 53"
    by (rule flog2_unique) simp_all
  have "round_double 9007199254799999 = of_int (rne (9007199254799999 / 2)) * 2"
    using round_double_pos [of 9007199254799999] by (simp add: f)
  also have "rne (9007199254799999 / 2) = 4503599627400000"
    by (simp add: rne_def Let_def)
  finally show ?thesis by simp
qed

lemma int_to_float_overflow: "int_to_float (2 ^ 1024) = Inl OverflowError"
proof -
  have "round_double (of_int 1 * 2 powi 1024) = of_int 1 * 2 powi 1024"
    by (rule round_double_exact) simp_all
  then have "round_double (2 ^ 1024) = 2 ^ 1024"
    by simp
  then show ?thesis
    by (simp add: int_to_float_def to_float_def)
qed

text \<open>
  C2, as stated, fails: the code computes in floats, and from \<open>2^52\<close> on the sum or
  its quotient is rounded. At the time 9007199254799999 (just above \<open>2^53\<close>) and the
  phase byte 0 the time is rounded up to 9007199254800000 = 86400 * 104249991375 when
  it becomes a float, so the code returns 104249991375 where the exact formula gives
  104249991374.
\<close>

theorem get_time_period_exact_counterexample:
  "get_time_period 9007199254799999 (0 # replicate 9 0) = Inr 104249991375
   \<and> \<lfloor>((9007199254799999 + 0 * 86400 / 256) / 86400 :: rat)\<rfloor> = 104249991374"
proof -
  have "round_double (of_int 4503599627400000 * 2 powi 1) = of_int 4503599627400000 * 2 powi 1"
    by (rule round_double_exact) simp_all
  then have "round_double 9007199254800000 = 9007199254800000"
    by simp
  then have s: "shifted_time 9007199254799999 0 = 9007199254800000"
    by (simp add: shifted_time_def round_double_2_53_odd)
  have "round_double (of_int 104249991375) = of_int 104249991375"
    by (rule round_double_int) simp_all
  then have q: "round_double 104249991375 = 104249991375"
    by simp
  have "get_time_period 9007199254799999 (0 # replicate 9 0) = Inr 104249991375"
    using get_time_period_value [of 9007199254799999 0 "replicate 9 0"]
    by (simp add: s q)
  then show ?thesis
    by simp
qed

text \<open>
  C2, amended. For a time \<open>t\<close> with \<open>0 \<le> t \<le> 2^52 - 86400\<close> and a permanent id
  whose first byte is \<open>b\<close>, \<open>get_time_period\<close> returns
  \<open>\<lfloor>(t + b * 86400 / 256) / 86400\<rfloor>\<close> in exact rational arithmetic, which is also
  the result in integer arithmetic with the offset truncated first.
\<close>

theorem get_time_period_exact:
  assumes "0 \<le> t" and "t + 86400 \<le> 2 ^ 52"
  shows "get_time_period t (b # rest)
           = Inr \<lfloor>((of_int t + of_int (uint b) * 86400 / 256) / 86400 :: rat)\<rfloor>
         \<and> get_time_period t (b # rest) = Inr ((t + uint b * 86400 div 256) div 86400)"
proof -
  define ph where "ph = uint b"
  have "((of_int t + of_int ph * 86400 / 256) / 86400 :: rat)
      = of_int (2 * t + 675 * ph) / of_int 172800"
    by (simp add: field_simps)
  then have a: "\<lfloor>((of_int t + of_int ph * 86400 / 256) / 86400 :: rat)\<rfloor>
      = (2 * t + 675 * ph) div 172800"
    by (simp only: floor_divide_of_int_eq)
  have b: "(t + ph * 86400 div 256) div 86400 = (2 * t + 675 * ph) div 172800"
    by (simp only: offset_div halves_div)
  show ?thesis
    unfolding get_time_period_small [OF assms] ph_def [symmetric] a b by simp
qed

theorem get_time_period_exact_witness:
  "get_time_period 432000 (0 # replicate 9 0) = Inr 5"
  using get_time_period_exact [of 432000 0 "replicate 9 0"] by simp

text \<open>
  C3, as stated, fails: the code truncates the remainder to an integer. With the time
  0 and the phase byte 1 the exact sum is 337.5, the code returns 86400 - 337 = 86063,
  and 86063 + 337.5 is not 86400.
\<close>

theorem get_seconds_valid_exact_counterexample:
  "get_seconds_valid 0 (1 # replicate 9 0) = Inr 86063
   \<and> 86063 + ((0 + 1 * 86400 / 256) - 86400 * of_int \<lfloor>((0 + 1 * 86400 / 256) / 86400 :: rat)\<rfloor>)
       \<noteq> (86400 :: rat)"
  using get_seconds_valid_small [of 0 1 "replicate 9 0"] by simp

text \<open>
  C3, amended. For a time \<open>t\<close> with \<open>0 \<le> t \<le> 2^52 - 86400\<close> and a permanent id
  whose first byte is \<open>b\<close>, \<open>get_seconds_valid\<close> returns 86400 minus the integer part
  of \<open>(t + b * 86400 / 256) mod 86400\<close>, the remainder taken on the exact sum; the
  result \<open>v\<close> is between 1 and 86400, and \<open>v + ((t + b * 86400 div 256) mod 86400) = 86400\<close>
  when the offset is truncated to an integer before it is added.
\<close>

theorem get_seconds_valid_exact:
  assumes "0 \<le> t" and "t + 86400 \<le> 2 ^ 52"
  shows "get_seconds_valid t (b # rest)
           = Inr (86400 - \<lfloor>(of_int t + of_int (uint b) * 86400 / 256 :: rat)
                            - 86400 * of_int \<lfloor>((of_int t + of_int (uint b) * 86400 / 256) / 86400 :: rat)\<rfloor>\<rfloor>)
         \<and> (\<exists>v. get_seconds_valid t (b # rest) = Inr v \<and> 1 \<le> v \<and> v \<le> 86400
              \<and> v + (t + uint b * 86400 div 256) mod 86400 = 86400)"
proof -
  define ph where "ph = uint b"
  define h where "h = 2 * t + 675 * ph"
  have x: "(of_int t + of_int ph * 86400 / 256 :: rat) = of_int h / of_int 2"
    by (simp add: h_def field_simps)
  have q: "((of_int h / of_int 2) / 86400 :: rat) = of_int h / of_int 172800"
    by simp
  have "(of_int h / of_int 2 - 86400 * of_int (h div 172800) :: rat)
      = of_int (h - 172800 * (h div 172800)) / of_int 2"
    by (simp add: field_simps)
  also have "h - 172800 * (h div 172800) = h mod 172800"
    by (simp add: minus_mult_div_eq_mod)
  finally have a: "\<lfloor>(of_int h / of_int 2 - 86400 * of_int (h div 172800) :: rat)\<rfloor>
      = h mod 172800 div 2"
    by (simp only: floor_divide_of_int_eq)
  have b: "(t + ph * 86400 div 256) mod 86400 = h mod 172800 div 2"
    by (simp only: h_def offset_div halves_mod)
  have c: "0 \<le> h mod 172800 div 2" "h mod 172800 div 2 < 86400"
    by simp_all
  have v: "get_seconds_valid t (b # rest) = Inr (86400 - h mod 172800 div 2)"
    unfolding h_def ph_def by (rule get_seconds_valid_small [OF assms])
  show ?thesis
    unfolding v ph_def [symmetric] x q floor_divide_of_int_eq a b
    using c by simp
qed

theorem get_seconds_valid_exact_witness:
  "get_seconds_valid 432000 (0 # replicate 9 0) = Inr 86400"
  using get_seconds_valid_exact [of 432000 0 "replicate 9 0"] by simp

text \<open>
  C8, as stated, fails for times beyond the doubles: \<^verbatim>\<open>int(time) + ...\<close> converts the
  time to a float, and at \<open>2^1024\<close> the conversion raises \<^verbatim>\<open>OverflowError\<close>, so
  there is no time period to compare.
\<close>

theorem get_time_period_monotone_counterexample:
  "get_time_period (2 ^ 1024) (0 # replicate 9 0) = Inl OverflowError"
proof -
  have "struct_unpack_B (take 1 (0 # replicate 9 0)) = Inr (uint (0 :: byte))"
    by (simp add: struct_unpack_B_def)
  moreover note phase_offset [OF uint_byte_bounds, of 0]
  moreover have "int_add_float (2 ^ 1024) x = Inl OverflowError" for x
    unfolding int_add_float_def int_to_float_overflow by simp
  ultimately show ?thesis
    unfolding get_time_period_def by (simp only: sum.case)
qed

text \<open>
  C8, amended. For a permanent id that is not empty and times
  \<open>0 \<le> t1 \<le> t2 < 2^1024 - 2^970\<close> (the integers that convert to a float) both
  time periods are returned and the later one is not smaller: each rounding, the
  addition of the offset, the division and the truncation are monotone.
\<close>

theorem get_time_period_monotone:
  assumes "0 \<le> t1" and "t1 \<le> t2" and "t2 < 2 ^ 1024 - 2 ^ 970" and "p \<noteq> []"
  shows "\<exists>a b. get_time_period t1 p = Inr a \<and> get_time_period t2 p = Inr b \<and> a \<le> b"
proof -
  from assms(4) obtain b rest where p: "p = b # rest"
    by (cases p) auto
  have t1: "t1 < 2 ^ 1024 - 2 ^ 970" and t2: "0 \<le> t2"
    using assms(1-3) by simp_all
  define ph where "ph = uint b"
  have ph: "0 \<le> ph" "ph < 256"
    unfolding ph_def by (rule uint_byte_bounds)+
  define off :: rat where "off = of_int (ph * 675) / 2"
  have off: "0 \<le> off"
    using ph(1) by (simp add: off_def)
  have r1: "0 \<le> round_double (of_int t1)"
    by (rule round_double_nonneg) (use assms(1) in simp)
  have "round_double (of_int t1) \<le> round_double (of_int t2)"
    by (rule round_double_mono) (use assms(1,2) in simp_all)
  then have "round_double (of_int t1) + off \<le> round_double (of_int t2) + off"
    by simp
  moreover have "0 \<le> round_double (of_int t1) + off"
    using r1 off by simp
  ultimately have s: "shifted_time t1 ph \<le> shifted_time t2 ph"
    unfolding shifted_time_def off_def [symmetric] by (intro round_double_mono)
  have s1: "0 \<le> shifted_time t1 ph"
    by (rule shifted_time_float(2) [OF assms(1) t1 ph])
  have "round_double (shifted_time t1 ph / 86400) \<le> round_double (shifted_time t2 ph / 86400)"
    by (rule round_double_mono) (use s s1 in \<open>simp_all add: divide_right_mono\<close>)
  then have "\<lfloor>round_double (shifted_time t1 ph / 86400)\<rfloor>
      \<le> \<lfloor>round_double (shifted_time t2 ph / 86400)\<rfloor>"
    by (rule floor_mono)
  then show ?thesis
    unfolding p get_time_period_value [OF assms(1) t1] get_time_period_value [OF t2 assms(3)]
      ph_def [symmetric]
    by simp
qed

theorem get_time_period_monotone_witness:
  "\<exists>a b. get_time_period 432000 (0 # replicate 9 0) = Inr a
     \<and> get_time_period 1700000000 (0 # replicate 9 0) = Inr b \<and> a \<le> b"
  using get_time_period_monotone [of 432000 1700000000 "0 # replicate 9 0"] by simp

end
